theory Spec2Isabelle
  imports Main "HOL-Library.Word"
begin

section \<open>Byte strings, big integers and hashes\<close>

text \<open>
  Go's \<^verbatim>\<open>[]byte\<close> and \<^verbatim>\<open>string\<close> (the scratchpad's key type) are sequences of
  8-bit characters: HOL's \<open>string\<close>. \<^verbatim>\<open>common.Address\<close> is \<^verbatim>\<open>[20]byte\<close> and
  \<^verbatim>\<open>common.Hash\<close> is \<^verbatim>\<open>[32]byte\<close>; the model keeps them as byte strings, and
  \<^verbatim>\<open>.Bytes()\<close> is the identity.
\<close>

type_synonym bytes = string
type_synonym address = bytes
type_synonym hash = bytes

text \<open>\<^verbatim>\<open>common.Hash{}\<close>: thirty-two zero bytes.\<close>

definition zeroHash :: hash where
  "zeroHash = replicate 32 (CHR 0x00)"

definition zeroAddress :: address where
  "zeroAddress = replicate 20 (CHR 0x00)"

text \<open>
  \<^verbatim>\<open>common.BytesToHash(b)\<close>: a longer input is cropped from the left, a shorter one is
  right-aligned in thirty-two bytes.
\<close>

definition BytesToHash :: "bytes \<Rightarrow> hash" where
  "BytesToHash b =
     (if length b > 32 then drop (length b - 32) b
      else replicate (32 - length b) (CHR 0x00) @ b)"

text \<open>
  \<^verbatim>\<open>math/big\<close>: \<^verbatim>\<open>x.Bytes()\<close> is the big-endian encoding of the absolute value of
  \<open>x\<close>, without leading zeros; \<^verbatim>\<open>new(big.Int).SetBytes(b)\<close> reads \<open>b\<close> as a big-endian
  unsigned integer.
\<close>

fun be_bytes :: "nat \<Rightarrow> bytes" where
  "be_bytes n = (if n = 0 then [] else be_bytes (n div 256) @ [char_of (n mod 256)])"

declare be_bytes.simps [simp del]

definition big_Bytes :: "int \<Rightarrow> bytes" where
  "big_Bytes x = be_bytes (nat \<bar>x\<bar>)"

definition be_nat :: "bytes \<Rightarrow> nat" where
  "be_nat b = foldl (\<lambda>acc c. acc * 256 + of_char c) 0 b"

definition big_SetBytes :: "bytes \<Rightarrow> int" where
  "big_SetBytes b = int (be_nat b)"

text \<open>
  \<^verbatim>\<open>big.NewInt(int64(nonce))\<close> for a \<^verbatim>\<open>uint64\<close> nonce: the conversion to \<^verbatim>\<open>int64\<close>
  reinterprets the sixty-four bits as two's complement. \<^verbatim>\<open>x.Uint64()\<close> gives the low
  sixty-four bits of the magnitude.
\<close>

definition nonce_Bytes :: "64 word \<Rightarrow> bytes" where
  "nonce_Bytes nonce = big_Bytes (sint nonce)"

definition big_Uint64 :: "int \<Rightarrow> 64 word" where
  "big_Uint64 x = word_of_int \<bar>x\<bar>"

section \<open>Canonical scratchpad keys\<close>

text \<open>
  The six domain tags are Keccak-256 hashes of fixed labels. \<^verbatim>\<open>crypto.Keccak256Hash\<close>
  belongs to go-ethereum, not to this repository: it is the parameter \<open>K\<close> of every
  definition that needs a tag or a code hash.
\<close>

definition BALANCE_KEY :: "(bytes \<Rightarrow> hash) \<Rightarrow> hash" where
  "BALANCE_KEY K = K ''mfersafe-scratchpad-balance''"

definition NONCE_KEY :: "(bytes \<Rightarrow> hash) \<Rightarrow> hash" where
  "NONCE_KEY K = K ''mfersafe-scratchpad-nonce''"

definition CODE_KEY :: "(bytes \<Rightarrow> hash) \<Rightarrow> hash" where
  "CODE_KEY K = K ''mfersafe-scratchpad-code''"

definition CODEHASH_KEY :: "(bytes \<Rightarrow> hash) \<Rightarrow> hash" where
  "CODEHASH_KEY K = K ''mfersafe-scratchpad-codehash''"

definition STATE_KEY :: "(bytes \<Rightarrow> hash) \<Rightarrow> hash" where
  "STATE_KEY K = K ''mfersafe-scratchpad-state''"

definition SUICIDE_KEY :: "(bytes \<Rightarrow> hash) \<Rightarrow> hash" where
  "SUICIDE_KEY K = K ''mfersafe-suicide-state''"

definition calcKey :: "hash \<Rightarrow> address \<Rightarrow> bytes" where
  "calcKey op account = op @ account"

definition calcStateKey :: "(bytes \<Rightarrow> hash) \<Rightarrow> address \<Rightarrow> hash \<Rightarrow> bytes" where
  "calcStateKey K account key = calcKey (STATE_KEY K) account @ key"

datatype RequestType = GET_BALANCE | GET_NONCE | GET_CODE | GET_CODEHASH | GET_STATE

text \<open>The \<^verbatim>\<open>switch action\<close> at the head of \<^verbatim>\<open>OverlayState.get\<close>.\<close>

fun scratchpadKey :: "(bytes \<Rightarrow> hash) \<Rightarrow> RequestType \<Rightarrow> address \<Rightarrow> hash \<Rightarrow> bytes" where
  "scratchpadKey K GET_BALANCE account key = calcKey (BALANCE_KEY K) account"
| "scratchpadKey K GET_NONCE account key = calcKey (NONCE_KEY K) account"
| "scratchpadKey K GET_CODE account key = calcKey (CODE_KEY K) account"
| "scratchpadKey K GET_CODEHASH account key = calcKey (CODEHASH_KEY K) account"
| "scratchpadKey K GET_STATE account key = calcStateKey K account key"

section \<open>Overlay layers\<close>

text \<open>
  \<^verbatim>\<open>types.Log\<close> and \<^verbatim>\<open>types.Receipt\<close> are go-ethereum's; the engine only stores them
  and overwrites a receipt's \<^verbatim>\<open>Logs\<close>. Receipts are stored by pointer and the callers
  pass non-nil pointers: the model stores the receipt itself.
\<close>

record Log =
  LogAddress :: address
  Topics :: "hash list"
  Data :: bytes

record Receipt =
  TxHash :: hash
  GasUsed :: "64 word"
  Logs :: "Log list"

text \<open>
  The fields of \<^verbatim>\<open>OverlayState\<close> apart from \<^verbatim>\<open>parent\<close>. A Go map read of a missing
  key gives the zero value: \<open>txLogs\<close> is total with the nil subslice \<open>[]\<close> (\<^verbatim>\<open>AddLog\<close> only
  appends, so a stored subslice is never empty), \<open>accessedAccounts\<close> only ever stores
  \<^verbatim>\<open>true\<close> and is a set. \<^verbatim>\<open>stateID\<close> and \<^verbatim>\<open>reason\<close> are used for logging only, the
  mutexes and channels belong to the concurrent presentation; they are left out.
  \<^verbatim>\<open>deriveCnt\<close>, \<^verbatim>\<open>rpcCnt\<close> (\<^verbatim>\<open>int64\<close>) and \<^verbatim>\<open>batchSize\<close> (\<^verbatim>\<open>int\<close>) are integers; no
  property below comes near their overflow.
\<close>

record layer =
  scratchPad :: "bytes \<rightharpoonup> bytes"
  txLogs :: "hash \<Rightarrow> Log list"
  receipts :: "hash \<rightharpoonup> Receipt"
  currentTxHash :: hash
  currentBlockHash :: hash
  deriveCnt :: int
  rpcCnt :: int
  batchSize :: int
  accessedAccounts :: "address set"

text \<open>
  An \<^verbatim>\<open>*OverlayState\<close> with everything reachable from it: \<open>Root s\<close> has
  \<^verbatim>\<open>parent == nil\<close>, \<open>Derived s p\<close> has \<^verbatim>\<open>parent == p\<close>.
\<close>

datatype OverlayState = Root layer | Derived layer OverlayState

fun this :: "OverlayState \<Rightarrow> layer" where
  "this (Root s) = s"
| "this (Derived s p) = s"

fun parent :: "OverlayState \<Rightarrow> OverlayState option" where
  "parent (Root s) = None"
| "parent (Derived s p) = Some p"

text \<open>An assignment to a field of the layer the pointer refers to.\<close>

fun update_this :: "(layer \<Rightarrow> layer) \<Rightarrow> OverlayState \<Rightarrow> OverlayState" where
  "update_this f (Root s) = Root (f s)"
| "update_this f (Derived s p) = Derived (f s) p"

text \<open>\<^verbatim>\<open>s.scratchPad[k] = v\<close>\<close>

definition scratchPad_store :: "bytes \<Rightarrow> bytes \<Rightarrow> OverlayState \<Rightarrow> OverlayState" where
  "scratchPad_store k v = update_this (\<lambda>s. s\<lparr>scratchPad := (scratchPad s)(k \<mapsto> v)\<rparr>)"

text \<open>
  \<^verbatim>\<open>Derive\<close>: a fresh layer above \<open>s\<close>. The fields the Go literal does not mention are
  zero (\<^verbatim>\<open>rpcCnt\<close>, \<^verbatim>\<open>batchSize\<close>) or nil (\<^verbatim>\<open>accessedAccounts\<close>).
\<close>

definition Derive :: "OverlayState \<Rightarrow> OverlayState" where
  "Derive s =
     Derived \<lparr>scratchPad = Map.empty, txLogs = (\<lambda>_. []), receipts = Map.empty,
              currentTxHash = currentTxHash (this s),
              currentBlockHash = currentBlockHash (this s),
              deriveCnt = deriveCnt (this s) + 1, rpcCnt = 0, batchSize = 0,
              accessedAccounts = {}\<rparr> s"

fun getRootState :: "OverlayState \<Rightarrow> layer" where
  "getRootState (Root s) = s"
| "getRootState (Derived s p) = getRootState p"

section \<open>The upstream node and the RPC client\<close>

text \<open>
  The upstream node at the pinned block is a fixed function per datum: what a batch
  element's \<^verbatim>\<open>Result\<close> holds after a successful transport call (the zero value when
  the node answers that element with a JSON-RPC error, which the fetchers do not look
  at). The block argument \<^verbatim>\<open>hexBN\<close> is the same in every request and is left out of
  the requests.
  \<open>transport_fails k\<close> says that the \<open>k\<close>-th \<^verbatim>\<open>BatchCallContext\<close> of the client returns a
  transport error; the script is unbounded, so the transport may fail forever.
\<close>

datatype BatchElem =
    eth_getTransactionCount address
  | eth_getBalance address
  | eth_getCode address
  | eth_getStorageAt address hash

record upstream =
  up_nonce :: "address \<Rightarrow> 64 word"
  up_balance :: "address \<Rightarrow> nat"
  up_code :: "address \<Rightarrow> bytes"
  up_storage :: "address \<Rightarrow> hash \<Rightarrow> hash"
  transport_fails :: "nat \<Rightarrow> bool"

text \<open>
  What the program does to the outside: the batches handed to the client, in order,
  and the \<^verbatim>\<open>time.Sleep\<close> calls, in milliseconds.
\<close>

record rpc_Client =
  calls :: "BatchElem list list"
  slept :: "nat list"

datatype error = TransportError | SliceBoundsPanic | NilPointerPanic

definition BatchCallContext :: "upstream \<Rightarrow> rpc_Client \<Rightarrow> BatchElem list \<Rightarrow> bool \<times> rpc_Client" where
  "BatchCallContext U ec b = (transport_fails U (length (calls ec)), ec\<lparr>calls := calls ec @ [b]\<rparr>)"

definition Sleep :: "nat \<Rightarrow> rpc_Client \<Rightarrow> rpc_Client" where
  "Sleep ms ec = ec\<lparr>slept := slept ec @ [ms]\<rparr>"

text \<open>\<^verbatim>\<open>xs[lo:hi]\<close> for \<open>lo \<le> hi \<le> len(xs)\<close>.\<close>

definition subslice :: "'a list \<Rightarrow> nat \<Rightarrow> nat \<Rightarrow> 'a list" where
  "subslice xs lo hi = take (hi - lo) (drop lo xs)"

section \<open>Fetching storage slots\<close>

text \<open>\<^verbatim>\<open>StorageReq\<close>; its \<^verbatim>\<open>Error\<close> field is never written and is left out.\<close>

record StorageReq =
  Address :: address
  Key :: hash
  Value :: hash

text \<open>The transport batch of a window of storage requests.\<close>

definition getStorageAt_batch :: "StorageReq list \<Rightarrow> BatchElem list" where
  "getStorageAt_batch rs = map (\<lambda>r. eth_getStorageAt (Address r) (Key r)) rs"

text \<open>
  The window loop of \<^verbatim>\<open>loadStateBatchRPC\<close>:
  \<^verbatim>\<open>for begin := 0; begin < len(reqs); begin += step\<close>. A successful call writes the
  answers of its window through the \<^verbatim>\<open>Result\<close> pointers into \<^verbatim>\<open>values\<close>; a transport
  error returns at once. A negative \<open>step\<close> makes \<^verbatim>\<open>reqs[begin:end]\<close> panic, and with
  \<open>step = 0\<close> the loop only ends on a transport error.
\<close>

partial_function (option) loadState_windows ::
  "upstream \<Rightarrow> int \<Rightarrow> StorageReq list \<Rightarrow> nat \<Rightarrow> hash list \<Rightarrow> rpc_Client
    \<Rightarrow> ((error + hash list) \<times> rpc_Client) option" where
  "loadState_windows U step reqs begin vals ec =
     (if int begin < int (length reqs) then
        (let e = int begin + step;
             e' = (if e > int (length reqs) then int (length reqs) else e)
         in if e' < int begin then Some (Inl SliceBoundsPanic, ec)
            else if fst (BatchCallContext U ec (getStorageAt_batch (subslice reqs begin (nat e'))))
            then Some (Inl TransportError,
                       snd (BatchCallContext U ec (getStorageAt_batch (subslice reqs begin (nat e')))))
            else loadState_windows U step reqs (nat (int begin + step))
                   (take begin vals
                      @ map (\<lambda>r. up_storage U (Address r) (Key r)) (subslice reqs begin (nat e'))
                      @ drop (nat e') vals)
                   (snd (BatchCallContext U ec (getStorageAt_batch (subslice reqs begin (nat e'))))))
      else Some (Inr vals, ec))"

text \<open>
  \<^verbatim>\<open>loadStateBatchRPC\<close>, a method of the root layer. The requests are filled in place
  only after every window succeeded; \<^verbatim>\<open>rpcCnt\<close> is incremented once, on entry.
\<close>

definition loadStateBatchRPC ::
  "upstream \<Rightarrow> layer \<Rightarrow> rpc_Client \<Rightarrow> StorageReq list
    \<Rightarrow> ((error + StorageReq list) \<times> layer \<times> rpc_Client) option" where
  "loadStateBatchRPC U s ec storageReqs =
     (case loadState_windows U (batchSize s) storageReqs 0
             (replicate (length storageReqs) zeroHash) ec of
        None \<Rightarrow> None
      | Some (Inl err, ec1) \<Rightarrow> Some (Inl err, s\<lparr>rpcCnt := rpcCnt s + 1\<rparr>, ec1)
      | Some (Inr vals, ec1) \<Rightarrow>
          Some (Inr (map (\<lambda>(r, v). r\<lparr>Value := v\<rparr>) (zip storageReqs vals)),
                s\<lparr>rpcCnt := rpcCnt s + 1\<rparr>, ec1))"

text \<open>
  The storage branch of \<^verbatim>\<open>timeSlot\<close> for one tick that drains the requests
  \<open>pending\<close> (as many as the queue held when the loop last looked, at most its capacity
  of 500): \<^verbatim>\<open>loadStateBatchRPC\<close> is repeated, one second apart, until it returns no
  error; a panic ends the process. The \<open>i\<close>-th requester is answered with the \<open>i\<close>-th
  entry. Which requests a tick drains depends on the scheduling of the goroutines and
  is an input here.
\<close>

partial_function (option) timeSlot_storage_retry ::
  "upstream \<Rightarrow> layer \<Rightarrow> rpc_Client \<Rightarrow> StorageReq list
    \<Rightarrow> ((error + StorageReq list) \<times> layer \<times> rpc_Client) option" where
  "timeSlot_storage_retry U s ec pending =
     (case loadStateBatchRPC U s ec pending of
        None \<Rightarrow> None
      | Some (Inl err, s1, ec1) \<Rightarrow>
          (if err = TransportError then timeSlot_storage_retry U s1 (Sleep 1000 ec1) pending
           else Some (Inl err, s1, ec1))
      | Some (Inr rs, s1, ec1) \<Rightarrow> Some (Inr rs, s1, ec1))"

definition timeSlot_storage ::
  "upstream \<Rightarrow> layer \<Rightarrow> rpc_Client \<Rightarrow> StorageReq list
    \<Rightarrow> ((error + StorageReq list) \<times> layer \<times> rpc_Client) option" where
  "timeSlot_storage U s ec pending =
     (if length pending > 0 then timeSlot_storage_retry U s ec pending
      else Some (Inr pending, s, ec))"

text \<open>
  \<^verbatim>\<open>loadState\<close> as one executor sees it: its request is the only one the next tick
  drains, and it blocks until the answer arrives.
\<close>

definition loadState ::
  "upstream \<Rightarrow> layer \<Rightarrow> rpc_Client \<Rightarrow> address \<Rightarrow> hash
    \<Rightarrow> ((error + hash) \<times> layer \<times> rpc_Client) option" where
  "loadState U s ec account key =
     (case timeSlot_storage U s ec [\<lparr>Address = account, Key = key, Value = zeroHash\<rparr>] of
        None \<Rightarrow> None
      | Some (Inl err, s1, ec1) \<Rightarrow> Some (Inl err, s1, ec1)
      | Some (Inr [], s1, ec1) \<Rightarrow> None
      | Some (Inr (r # rs), s1, ec1) \<Rightarrow> Some (Inr (Value r), s1, ec1))"

section \<open>Fetching accounts\<close>

record FetchedAccountResult =
  Account :: address
  Balance :: int
  CodeHash :: hash
  Nonce :: "64 word"
  Code :: bytes

text \<open>The zero value of the struct, as \<^verbatim>\<open>make\<close> fills the result subslice.\<close>

definition zeroFetchedAccountResult :: FetchedAccountResult where
  "zeroFetchedAccountResult =
     \<lparr>Account = zeroAddress, Balance = 0, CodeHash = zeroHash, Nonce = 0, Code = []\<rparr>"

text \<open>
  \<^verbatim>\<open>batchElem[i*3]\<close>, \<^verbatim>\<open>[i*3+1]\<close>, \<^verbatim>\<open>[i*3+2]\<close>: the nonce, balance and code requests
  of account \<open>i\<close>.
\<close>

definition batchElem :: "address list \<Rightarrow> BatchElem list" where
  "batchElem accounts =
     concat (map (\<lambda>a. [eth_getTransactionCount a, eth_getBalance a, eth_getCode a]) accounts)"

text \<open>
  A successful call on \<^verbatim>\<open>batchElem[lo:hi]\<close> writes each answer through its element's
  \<^verbatim>\<open>Result\<close> pointer: element \<open>3i\<close> into \<^verbatim>\<open>result[i].Nonce\<close>, \<open>3i+1\<close> into
  \<^verbatim>\<open>result[i].Balance\<close>, \<open>3i+2\<close> into \<^verbatim>\<open>result[i].Code\<close>.
\<close>

definition store_answers ::
  "upstream \<Rightarrow> address list \<Rightarrow> nat \<Rightarrow> nat \<Rightarrow> FetchedAccountResult list
    \<Rightarrow> FetchedAccountResult list" where
  "store_answers U accounts lo hi result =
     map (\<lambda>(i, r).
            r\<lparr>Nonce := (if lo \<le> 3 * i \<and> 3 * i < hi then up_nonce U (accounts ! i) else Nonce r),
              Balance := (if lo \<le> 3 * i + 1 \<and> 3 * i + 1 < hi
                          then int (up_balance U (accounts ! i)) else Balance r),
              Code := (if lo \<le> 3 * i + 2 \<and> 3 * i + 2 < hi
                       then up_code U (accounts ! i) else Code r)\<rparr>)
         (enumerate 0 result)"

text \<open>
  The two nested loops of \<^verbatim>\<open>loadAccountBatchRPC\<close> as one recursion on \<open>begin\<close> and
  \<open>rpcTries\<close>: a transport error increments \<open>rpcTries\<close> (never reset within the call)
  and either returns the error, when \<open>rpcTries > 5\<close>, or sleeps 100 ms and repeats the
  same window (\<^verbatim>\<open>continue\<close>); a success moves to the next window (\<^verbatim>\<open>break\<close>, then
  \<^verbatim>\<open>begin += step\<close>).
\<close>

partial_function (option) loadAccount_windows ::
  "upstream \<Rightarrow> int \<Rightarrow> address list \<Rightarrow> nat \<Rightarrow> nat \<Rightarrow> FetchedAccountResult list \<Rightarrow> rpc_Client
    \<Rightarrow> ((error + FetchedAccountResult list) \<times> rpc_Client) option" where
  "loadAccount_windows U step accounts begin rpcTries result ec =
     (if int begin < int (length (batchElem accounts)) then
        (let e = int begin + step;
             e' = (if e > int (length (batchElem accounts))
                   then int (length (batchElem accounts)) else e)
         in if e' < int begin then Some (Inl SliceBoundsPanic, ec)
            else if fst (BatchCallContext U ec (subslice (batchElem accounts) begin (nat e')))
            then (if rpcTries + 1 > 5
                  then Some (Inl TransportError,
                         snd (BatchCallContext U ec (subslice (batchElem accounts) begin (nat e'))))
                  else loadAccount_windows U step accounts begin (rpcTries + 1) result
                         (Sleep 100
                            (snd (BatchCallContext U ec (subslice (batchElem accounts) begin (nat e'))))))
            else loadAccount_windows U step accounts (nat (int begin + step)) rpcTries
                   (store_answers U accounts begin (nat e') result)
                   (snd (BatchCallContext U ec (subslice (batchElem accounts) begin (nat e')))))
      else Some (Inr result, ec))"

text \<open>
  \<^verbatim>\<open>loadAccountBatchRPC\<close>, a method of the root layer: the accounts are marked as
  accessed, the windows are fetched, and the code hash is derived locally
  (\<^verbatim>\<open>result[i].Account\<close> stays zero). \<^verbatim>\<open>rpcCnt\<close> is not touched.
\<close>

definition loadAccountBatchRPC ::
  "(bytes \<Rightarrow> hash) \<Rightarrow> upstream \<Rightarrow> layer \<Rightarrow> rpc_Client \<Rightarrow> address list
    \<Rightarrow> ((error + FetchedAccountResult list) \<times> layer \<times> rpc_Client) option" where
  "loadAccountBatchRPC K U s ec accounts =
     (case loadAccount_windows U (batchSize s) accounts 0 0
             (replicate (length accounts) zeroFetchedAccountResult) ec of
        None \<Rightarrow> None
      | Some (Inl err, ec1) \<Rightarrow>
          Some (Inl err, s\<lparr>accessedAccounts := accessedAccounts s \<union> set accounts\<rparr>, ec1)
      | Some (Inr result, ec1) \<Rightarrow>
          Some (Inr (map (\<lambda>r. r\<lparr>CodeHash := (if length (Code r) = 0 then zeroHash
                                              else K (Code r))\<rparr>) result),
                s\<lparr>accessedAccounts := accessedAccounts s \<union> set accounts\<rparr>, ec1))"

text \<open>The account branch of \<^verbatim>\<open>timeSlot\<close> for one tick that drains \<open>accounts\<close>.\<close>

partial_function (option) timeSlot_account_retry ::
  "(bytes \<Rightarrow> hash) \<Rightarrow> upstream \<Rightarrow> layer \<Rightarrow> rpc_Client \<Rightarrow> address list
    \<Rightarrow> ((error + FetchedAccountResult list) \<times> layer \<times> rpc_Client) option" where
  "timeSlot_account_retry K U s ec accounts =
     (case loadAccountBatchRPC K U s ec accounts of
        None \<Rightarrow> None
      | Some (Inl err, s1, ec1) \<Rightarrow>
          (if err = TransportError then timeSlot_account_retry K U s1 (Sleep 1000 ec1) accounts
           else Some (Inl err, s1, ec1))
      | Some (Inr accResult, s1, ec1) \<Rightarrow> Some (Inr accResult, s1, ec1))"

definition timeSlot_account ::
  "(bytes \<Rightarrow> hash) \<Rightarrow> upstream \<Rightarrow> layer \<Rightarrow> rpc_Client \<Rightarrow> address list
    \<Rightarrow> ((error + FetchedAccountResult list) \<times> layer \<times> rpc_Client) option" where
  "timeSlot_account K U s ec accounts =
     (if length accounts > 0 then timeSlot_account_retry K U s ec accounts
      else Some (Inr [], s, ec))"

text \<open>
  \<^verbatim>\<open>loadAccount\<close> as one executor sees it. The tick answers
  \<^verbatim>\<open>for i := 0; i < len(accResult); i++\<close>: with an empty result the requester would
  wait forever.
\<close>

definition loadAccount ::
  "(bytes \<Rightarrow> hash) \<Rightarrow> upstream \<Rightarrow> layer \<Rightarrow> rpc_Client \<Rightarrow> address
    \<Rightarrow> ((error + FetchedAccountResult) \<times> layer \<times> rpc_Client) option" where
  "loadAccount K U s ec account =
     (case timeSlot_account K U s ec [account] of
        None \<Rightarrow> None
      | Some (Inl err, s1, ec1) \<Rightarrow> Some (Inl err, s1, ec1)
      | Some (Inr [], s1, ec1) \<Rightarrow> None
      | Some (Inr (r # rs), s1, ec1) \<Rightarrow> Some (Inr r, s1, ec1))"

section \<open>The read pipeline\<close>

text \<open>\<^verbatim>\<open>if _, ok := m[k]; !ok { m[k] = v }\<close>\<close>

definition store_if_absent :: "bytes \<Rightarrow> bytes \<Rightarrow> (bytes \<rightharpoonup> bytes) \<Rightarrow> (bytes \<rightharpoonup> bytes)" where
  "store_if_absent k v m = (case m k of None \<Rightarrow> m(k \<mapsto> v) | Some old \<Rightarrow> m)"

text \<open>A Go map read \<^verbatim>\<open>m[k]\<close>: nil for a missing key.\<close>

definition map_read :: "(bytes \<rightharpoonup> bytes) \<Rightarrow> bytes \<Rightarrow> bytes" where
  "map_read m k = (case m k of None \<Rightarrow> [] | Some v \<Rightarrow> v)"

text \<open>The four conditional stores of the account branch of \<^verbatim>\<open>get\<close>, in source order.\<close>

definition populate ::
  "(bytes \<Rightarrow> hash) \<Rightarrow> address \<Rightarrow> FetchedAccountResult \<Rightarrow> (bytes \<rightharpoonup> bytes) \<Rightarrow> (bytes \<rightharpoonup> bytes)" where
  "populate K account result sp =
     store_if_absent (calcKey (CODEHASH_KEY K) account) (CodeHash result)
       (store_if_absent (calcKey (CODE_KEY K) account) (Code result)
          (store_if_absent (calcKey (NONCE_KEY K) account) (nonce_Bytes (Nonce result))
             (store_if_absent (calcKey (BALANCE_KEY K) account) (big_Bytes (Balance result)) sp)))"

text \<open>
  \<^verbatim>\<open>OverlayState.get\<close>. Every \<^verbatim>\<open>return\<close> of the source returns a nil error, so the
  result carries no error of its own: \<open>Inl\<close> is a panic of the fetch, \<open>None\<close> is a
  fetch that never answers. The result is paired with the layers and the client as the
  call leaves them.
\<close>

fun get ::
  "(bytes \<Rightarrow> hash) \<Rightarrow> upstream \<Rightarrow> OverlayState \<Rightarrow> rpc_Client \<Rightarrow> address \<Rightarrow> RequestType \<Rightarrow> hash
    \<Rightarrow> ((error + bytes) \<times> OverlayState \<times> rpc_Client) option" where
  "get K U (Root s) ec account action key =
     (case scratchPad s (scratchpadKey K action account key) of
        Some val \<Rightarrow> Some (Inr val, Root s, ec)
      | None \<Rightarrow>
          (case action of
             GET_STATE \<Rightarrow>
               (case loadState U s ec account key of
                  None \<Rightarrow> None
                | Some (Inl err, s1, ec1) \<Rightarrow> Some (Inl err, Root s1, ec1)
                | Some (Inr result, s1, ec1) \<Rightarrow>
                    Some (Inr result,
                          Root (s1\<lparr>scratchPad :=
                                  (scratchPad s1)(scratchpadKey K action account key \<mapsto> result)\<rparr>),
                          ec1))
           | _ \<Rightarrow>
               (case loadAccount K U s ec account of
                  None \<Rightarrow> None
                | Some (Inl err, s1, ec1) \<Rightarrow> Some (Inl err, Root s1, ec1)
                | Some (Inr result, s1, ec1) \<Rightarrow>
                    Some (Inr (case action of
                                 GET_BALANCE \<Rightarrow> map_read (populate K account result (scratchPad s1))
                                                  (calcKey (BALANCE_KEY K) account)
                               | GET_NONCE \<Rightarrow> map_read (populate K account result (scratchPad s1))
                                                  (calcKey (NONCE_KEY K) account)
                               | GET_CODE \<Rightarrow> map_read (populate K account result (scratchPad s1))
                                                  (calcKey (CODE_KEY K) account)
                               | GET_CODEHASH \<Rightarrow> map_read (populate K account result (scratchPad s1))
                                                  (calcKey (CODEHASH_KEY K) account)
                               | GET_STATE \<Rightarrow> []),
                          Root (s1\<lparr>scratchPad := populate K account result (scratchPad s1)\<rparr>),
                          ec1))))"
| "get K U (Derived s p) ec account action key =
     (case scratchPad s (scratchpadKey K action account key) of
        Some val \<Rightarrow> Some (Inr val, Derived s p, ec)
      | None \<Rightarrow>
          (case get K U p ec account action key of
             None \<Rightarrow> None
           | Some (r, p1, ec1) \<Rightarrow> Some (r, Derived s p1, ec1)))"

section \<open>The state-DB facade\<close>

text \<open>
  \<^verbatim>\<open>OverlayStateDB\<close>: the client \<^verbatim>\<open>ec\<close> (the same object the root layer calls), the
  refund counter and the active layer. Every constructor sets \<^verbatim>\<open>state\<close>, so it is
  never nil here. The cache file fields are not used by the operations below. One
  facade is modelled, with the chain of layers below its active layer; clones that
  share layers with it are not.
\<close>

record OverlayStateDB =
  ec :: rpc_Client
  refundGas :: "64 word"
  state :: OverlayState

definition GetOverlayDepth :: "OverlayStateDB \<Rightarrow> int" where
  "GetOverlayDepth db = deriveCnt (this (state db))"

text \<open>\<^verbatim>\<open>db.state.get(...)\<close>, with its effects on the layers and on the client kept.\<close>

definition state_get ::
  "(bytes \<Rightarrow> hash) \<Rightarrow> upstream \<Rightarrow> OverlayStateDB \<Rightarrow> address \<Rightarrow> RequestType \<Rightarrow> hash
    \<Rightarrow> ((error + bytes) \<times> OverlayStateDB) option" where
  "state_get K U db account action key =
     (case get K U (state db) (ec db) account action key of
        None \<Rightarrow> None
      | Some (r, st, ec1) \<Rightarrow> Some (r, db\<lparr>state := st, ec := ec1\<rparr>))"

definition SubBalance ::
  "(bytes \<Rightarrow> hash) \<Rightarrow> upstream \<Rightarrow> OverlayStateDB \<Rightarrow> address \<Rightarrow> int
    \<Rightarrow> ((error + unit) \<times> OverlayStateDB) option" where
  "SubBalance K U db account delta =
     (case state_get K U db account GET_BALANCE zeroHash of
        None \<Rightarrow> None
      | Some (Inl err, db1) \<Rightarrow> Some (Inl err, db1)
      | Some (Inr bal, db1) \<Rightarrow>
          Some (Inr (),
                db1\<lparr>state := scratchPad_store (calcKey (BALANCE_KEY K) account)
                                (big_Bytes (big_SetBytes bal - delta)) (state db1)\<rparr>))"

definition AddBalance ::
  "(bytes \<Rightarrow> hash) \<Rightarrow> upstream \<Rightarrow> OverlayStateDB \<Rightarrow> address \<Rightarrow> int
    \<Rightarrow> ((error + unit) \<times> OverlayStateDB) option" where
  "AddBalance K U db account delta =
     (case state_get K U db account GET_BALANCE zeroHash of
        None \<Rightarrow> None
      | Some (Inl err, db1) \<Rightarrow> Some (Inl err, db1)
      | Some (Inr bal, db1) \<Rightarrow>
          Some (Inr (),
                db1\<lparr>state := scratchPad_store (calcKey (BALANCE_KEY K) account)
                                (big_Bytes (big_SetBytes bal + delta)) (state db1)\<rparr>))"

definition GetBalance ::
  "(bytes \<Rightarrow> hash) \<Rightarrow> upstream \<Rightarrow> OverlayStateDB \<Rightarrow> address
    \<Rightarrow> ((error + int) \<times> OverlayStateDB) option" where
  "GetBalance K U db account =
     (case state_get K U db account GET_BALANCE zeroHash of
        None \<Rightarrow> None
      | Some (Inl err, db1) \<Rightarrow> Some (Inl err, db1)
      | Some (Inr bal, db1) \<Rightarrow> Some (Inr (big_SetBytes bal), db1))"

definition SetBalance :: "(bytes \<Rightarrow> hash) \<Rightarrow> OverlayStateDB \<Rightarrow> address \<Rightarrow> int \<Rightarrow> OverlayStateDB" where
  "SetBalance K db account balance =
     db\<lparr>state := scratchPad_store (calcKey (BALANCE_KEY K) account) (big_Bytes balance) (state db)\<rparr>"

definition GetNonce ::
  "(bytes \<Rightarrow> hash) \<Rightarrow> upstream \<Rightarrow> OverlayStateDB \<Rightarrow> address
    \<Rightarrow> ((error + 64 word) \<times> OverlayStateDB) option" where
  "GetNonce K U db account =
     (case state_get K U db account GET_NONCE zeroHash of
        None \<Rightarrow> None
      | Some (Inl err, db1) \<Rightarrow> Some (Inl err, db1)
      | Some (Inr nonce, db1) \<Rightarrow> Some (Inr (big_Uint64 (big_SetBytes nonce)), db1))"

definition SetNonce :: "(bytes \<Rightarrow> hash) \<Rightarrow> OverlayStateDB \<Rightarrow> address \<Rightarrow> 64 word \<Rightarrow> OverlayStateDB" where
  "SetNonce K db account nonce =
     db\<lparr>state := scratchPad_store (calcKey (NONCE_KEY K) account) (nonce_Bytes nonce) (state db)\<rparr>"

definition GetCodeHash ::
  "(bytes \<Rightarrow> hash) \<Rightarrow> upstream \<Rightarrow> OverlayStateDB \<Rightarrow> address
    \<Rightarrow> ((error + hash) \<times> OverlayStateDB) option" where
  "GetCodeHash K U db account =
     (case state_get K U db account GET_CODEHASH zeroHash of
        None \<Rightarrow> None
      | Some (Inl err, db1) \<Rightarrow> Some (Inl err, db1)
      | Some (Inr codehash, db1) \<Rightarrow> Some (Inr (BytesToHash codehash), db1))"

definition SetCodeHash :: "(bytes \<Rightarrow> hash) \<Rightarrow> OverlayStateDB \<Rightarrow> address \<Rightarrow> hash \<Rightarrow> OverlayStateDB" where
  "SetCodeHash K db account codeHash =
     db\<lparr>state := scratchPad_store (calcKey (CODEHASH_KEY K) account) codeHash (state db)\<rparr>"

definition GetCode ::
  "(bytes \<Rightarrow> hash) \<Rightarrow> upstream \<Rightarrow> OverlayStateDB \<Rightarrow> address
    \<Rightarrow> ((error + bytes) \<times> OverlayStateDB) option" where
  "GetCode K U db account = state_get K U db account GET_CODE zeroHash"

definition SetCode :: "(bytes \<Rightarrow> hash) \<Rightarrow> OverlayStateDB \<Rightarrow> address \<Rightarrow> bytes \<Rightarrow> OverlayStateDB" where
  "SetCode K db account code =
     db\<lparr>state := scratchPad_store (calcKey (CODE_KEY K) account) code (state db)\<rparr>"

definition GetCommittedState ::
  "(bytes \<Rightarrow> hash) \<Rightarrow> upstream \<Rightarrow> OverlayStateDB \<Rightarrow> address \<Rightarrow> hash
    \<Rightarrow> ((error + hash) \<times> OverlayStateDB) option" where
  "GetCommittedState K U db account key =
     (case state_get K U db account GET_STATE key of
        None \<Rightarrow> None
      | Some (Inl err, db1) \<Rightarrow> Some (Inl err, db1)
      | Some (Inr val, db1) \<Rightarrow> Some (Inr (BytesToHash val), db1))"

definition GetState ::
  "(bytes \<Rightarrow> hash) \<Rightarrow> upstream \<Rightarrow> OverlayStateDB \<Rightarrow> address \<Rightarrow> hash
    \<Rightarrow> ((error + hash) \<times> OverlayStateDB) option" where
  "GetState K U db account key = GetCommittedState K U db account key"

definition SetState :: "(bytes \<Rightarrow> hash) \<Rightarrow> OverlayStateDB \<Rightarrow> address \<Rightarrow> hash \<Rightarrow> hash \<Rightarrow> OverlayStateDB" where
  "SetState K db account key val =
     db\<lparr>state := scratchPad_store (calcStateKey K account key) val (state db)\<rparr>"

definition Suicide :: "(bytes \<Rightarrow> hash) \<Rightarrow> OverlayStateDB \<Rightarrow> address \<Rightarrow> bool \<times> OverlayStateDB" where
  "Suicide K db account =
     (True, db\<lparr>state := scratchPad_store (calcKey (SUICIDE_KEY K) account) [CHR 0x01] (state db)\<rparr>)"

definition HasSuicided :: "(bytes \<Rightarrow> hash) \<Rightarrow> OverlayStateDB \<Rightarrow> address \<Rightarrow> bool" where
  "HasSuicided K db account =
     (case scratchPad (this (state db)) (calcKey (SUICIDE_KEY K) account) of
        Some val \<Rightarrow> val = [CHR 0x01]
      | None \<Rightarrow> False)"

text \<open>
  \<^verbatim>\<open>RevertToSnapshot\<close>: the walk starts at the parent of the active layer and stops at
  the first layer with \<^verbatim>\<open>deriveCnt+1 == revisionID\<close>. Walking past the root
  dereferences nil.
\<close>

fun RevertToSnapshot_loop :: "OverlayState \<Rightarrow> int \<Rightarrow> error + OverlayState" where
  "RevertToSnapshot_loop (Root s) revisionID =
     (if deriveCnt s + 1 = revisionID then Inr (Root s) else Inl NilPointerPanic)"
| "RevertToSnapshot_loop (Derived s p) revisionID =
     (if deriveCnt s + 1 = revisionID then Inr (Derived s p)
      else RevertToSnapshot_loop p revisionID)"

definition RevertToSnapshot :: "OverlayStateDB \<Rightarrow> int \<Rightarrow> error + OverlayStateDB" where
  "RevertToSnapshot db revisionID =
     (case parent (state db) of
        None \<Rightarrow> Inl NilPointerPanic
      | Some tmpState \<Rightarrow>
          (case RevertToSnapshot_loop tmpState revisionID of
             Inl err \<Rightarrow> Inl err
           | Inr st \<Rightarrow> Inr (db\<lparr>state := st\<rparr>)))"

definition Snapshot :: "OverlayStateDB \<Rightarrow> int \<times> OverlayStateDB" where
  "Snapshot db = (deriveCnt (this (Derive (state db))), db\<lparr>state := Derive (state db)\<rparr>)"

text \<open>
  \<^verbatim>\<open>MergeTo\<close>: until the layer with \<^verbatim>\<open>deriveCnt == revisionID\<close> is reached, the
  scratchpad of the current layer is copied entry by entry into its parent (the other
  fields are not), and the parent becomes the current layer.
\<close>

function MergeTo_loop :: "OverlayState \<Rightarrow> int \<Rightarrow> error + OverlayState" where
  "MergeTo_loop (Root s) revisionID =
     (if deriveCnt s = revisionID then Inr (Root s) else Inl NilPointerPanic)"
| "MergeTo_loop (Derived s p) revisionID =
     (if deriveCnt s = revisionID then Inr (Derived s p)
      else MergeTo_loop (update_this (\<lambda>q. q\<lparr>scratchPad := scratchPad q ++ scratchPad s\<rparr>) p)
             revisionID)"
  by pat_completeness auto
termination
proof (relation "measure (\<lambda>(st, revisionID). size st)")
  show "wf (measure (\<lambda>(st, revisionID). size st))"
    by simp
next
  fix s :: layer and p :: OverlayState and revisionID :: int
  show "((update_this (\<lambda>q. q\<lparr>scratchPad := scratchPad q ++ scratchPad s\<rparr>) p, revisionID),
         (Derived s p, revisionID)) \<in> measure (\<lambda>(st, revisionID). size st)"
    by (cases p) simp_all
qed

definition MergeTo :: "OverlayStateDB \<Rightarrow> int \<Rightarrow> error + OverlayStateDB" where
  "MergeTo db revisionID =
     (case MergeTo_loop (state db) revisionID of
        Inl err \<Rightarrow> Inl err
      | Inr st \<Rightarrow> Inr (db\<lparr>state := st\<rparr>))"

definition RPCRequestCount :: "OverlayStateDB \<Rightarrow> int" where
  "RPCRequestCount db = rpcCnt (getRootState (state db))"

definition AddLog :: "OverlayStateDB \<Rightarrow> Log \<Rightarrow> OverlayStateDB" where
  "AddLog db vLog =
     db\<lparr>state := update_this
          (\<lambda>s. s\<lparr>txLogs := (txLogs s)(currentTxHash s := txLogs s (currentTxHash s) @ [vLog])\<rparr>)
          (state db)\<rparr>"

text \<open>
  The loop of \<^verbatim>\<open>GetLogs\<close>: from the active layer down to and including the root, a
  layer's non-nil subslice is put in front of what has been collected.
\<close>

fun GetLogs_loop :: "OverlayState \<Rightarrow> hash \<Rightarrow> Log list \<Rightarrow> Log list" where
  "GetLogs_loop (Root s) txHash logs =
     (if txLogs s txHash \<noteq> [] then txLogs s txHash @ logs else logs)"
| "GetLogs_loop (Derived s p) txHash logs =
     GetLogs_loop p txHash (if txLogs s txHash \<noteq> [] then txLogs s txHash @ logs else logs)"

definition GetLogs :: "OverlayStateDB \<Rightarrow> hash \<Rightarrow> Log list" where
  "GetLogs db txHash = GetLogs_loop (state db) txHash []"

definition AddReceipt :: "OverlayStateDB \<Rightarrow> hash \<Rightarrow> Receipt \<Rightarrow> OverlayStateDB" where
  "AddReceipt db txHash receipt =
     db\<lparr>state := update_this (\<lambda>s. s\<lparr>receipts := (receipts s)(txHash \<mapsto> receipt)\<rparr>) (state db)\<rparr>"

text \<open>
  The loop of \<^verbatim>\<open>GetReceipt\<close>: a layer with \<^verbatim>\<open>parent == nil\<close> ends the search with
  nil before its receipts are looked at. The receipt found has its \<^verbatim>\<open>Logs\<close>
  overwritten in place, so the stored receipt changes too. (In Go the subslice that
  \<^verbatim>\<open>GetLogs\<close> returns may share its backing array with a layer's subslice; the facade
  never reads the \<^verbatim>\<open>Logs\<close> of a stored receipt without overwriting them first, and the
  model keeps the value at the time of the call.)
\<close>

fun GetReceipt_loop :: "OverlayState \<Rightarrow> hash \<Rightarrow> Log list \<Rightarrow> Receipt option \<times> OverlayState" where
  "GetReceipt_loop (Root s) txHash logs = (None, Root s)"
| "GetReceipt_loop (Derived s p) txHash logs =
     (case receipts s txHash of
        Some receipt \<Rightarrow>
          (Some (receipt\<lparr>Logs := logs\<rparr>),
           Derived (s\<lparr>receipts := (receipts s)(txHash \<mapsto> receipt\<lparr>Logs := logs\<rparr>)\<rparr>) p)
      | None \<Rightarrow>
          (fst (GetReceipt_loop p txHash logs), Derived s (snd (GetReceipt_loop p txHash logs))))"

definition GetReceipt :: "OverlayStateDB \<Rightarrow> hash \<Rightarrow> Receipt option \<times> OverlayStateDB" where
  "GetReceipt db txHash =
     (fst (GetReceipt_loop (state db) txHash (GetLogs db txHash)),
      db\<lparr>state := snd (GetReceipt_loop (state db) txHash (GetLogs db txHash))\<rparr>)"

definition StartLogCollection :: "OverlayStateDB \<Rightarrow> hash \<Rightarrow> hash \<Rightarrow> OverlayStateDB" where
  "StartLogCollection db txHash blockHash =
     db\<lparr>state := update_this (\<lambda>s. s\<lparr>currentTxHash := txHash, currentBlockHash := blockHash\<rparr>)
                   (state db)\<rparr>"

section \<open>Construction, and sequences of writes\<close>

text \<open>
  \<^verbatim>\<open>NewOverlayState\<close> and \<^verbatim>\<open>NewOverlayStateDB\<close>: a root pinned to the block, and the
  facade on a layer derived from it ("protect underlying"). The client starts with no
  call made.
\<close>

definition NewOverlayState :: "int \<Rightarrow> OverlayState" where
  "NewOverlayState batch =
     Root \<lparr>scratchPad = Map.empty, txLogs = (\<lambda>_. []), receipts = Map.empty,
           currentTxHash = zeroHash, currentBlockHash = zeroHash,
           deriveCnt = 0, rpcCnt = 0, batchSize = batch, accessedAccounts = {}\<rparr>"

definition NewOverlayStateDB :: "int \<Rightarrow> OverlayStateDB" where
  "NewOverlayStateDB batch =
     \<lparr>ec = \<lparr>calls = [], slept = []\<rparr>, refundGas = 0, state = Derive (NewOverlayState batch)\<rparr>"

text \<open>
  The facade's operations that write into the active layer without reading, as data,
  so that a property can quantify over sequences of them.
\<close>

datatype write_op =
    W_SetBalance address int
  | W_SetNonce address "64 word"
  | W_SetCode address bytes
  | W_SetCodeHash address hash
  | W_SetState address hash hash
  | W_Suicide address
  | W_StartLogCollection hash hash
  | W_AddLog Log
  | W_AddReceipt hash Receipt

fun apply_write :: "(bytes \<Rightarrow> hash) \<Rightarrow> OverlayStateDB \<Rightarrow> write_op \<Rightarrow> OverlayStateDB" where
  "apply_write K db (W_SetBalance a v) = SetBalance K db a v"
| "apply_write K db (W_SetNonce a v) = SetNonce K db a v"
| "apply_write K db (W_SetCode a v) = SetCode K db a v"
| "apply_write K db (W_SetCodeHash a v) = SetCodeHash K db a v"
| "apply_write K db (W_SetState a k v) = SetState K db a k v"
| "apply_write K db (W_Suicide a) = snd (Suicide K db a)"
| "apply_write K db (W_StartLogCollection t b) = StartLogCollection db t b"
| "apply_write K db (W_AddLog l) = AddLog db l"
| "apply_write K db (W_AddReceipt t r) = AddReceipt db t r"

text \<open>The writes that store a scratchpad entry.\<close>

fun scratchpad_write :: "write_op \<Rightarrow> bool" where
  "scratchpad_write (W_StartLogCollection t b) = False"
| "scratchpad_write (W_AddLog l) = False"
| "scratchpad_write (W_AddReceipt t r) = False"
| "scratchpad_write w = True"

text \<open>The layers of a chain, the active one first and the root last.\<close>

fun layers :: "OverlayState \<Rightarrow> layer list" where
  "layers (Root s) = [s]"
| "layers (Derived s p) = s # layers p"

text \<open>
  A stand-in for Keccak-256 in worked examples: the input cut or zero-padded to
  thirty-two bytes. It keeps the six labels apart.
\<close>

definition pad32 :: "bytes \<Rightarrow> hash" where
  "pad32 b = take 32 (b @ replicate 32 (CHR 0x00))"

text \<open>
  Data for worked examples: an address of twenty bytes, hashes of thirty-two bytes, two
  logs and a receipt.
\<close>

definition addr_a :: address where
  "addr_a = replicate 19 (CHR 0x00) @ [CHR 0x0a]"

definition slot_k :: hash where
  "slot_k = BytesToHash [CHR 0x01]"

definition slot_v :: hash where
  "slot_v = BytesToHash [CHR 0x2a]"

definition tx_t :: hash where
  "tx_t = BytesToHash [CHR 0x74]"

definition block_b :: hash where
  "block_b = BytesToHash [CHR 0x62]"

definition log1 :: Log where
  "log1 = \<lparr>LogAddress = addr_a, Topics = [], Data = ''x''\<rparr>"

definition log2 :: Log where
  "log2 = \<lparr>LogAddress = addr_a, Topics = [], Data = ''y''\<rparr>"

definition receipt1 :: Receipt where
  "receipt1 = \<lparr>TxHash = tx_t, GasUsed = 21000, Logs = []\<rparr>"

definition root_db :: OverlayStateDB where
  "root_db = \<lparr>ec = \<lparr>calls = [], slept = []\<rparr>, refundGas = 0, state = NewOverlayState 100\<rparr>"

section \<open>Notions used to state the properties\<close>

text \<open>
  The value of the deepest layer that holds the key \<open>k\<close>: the first hit on the way from
  the active layer to the root, the root included.
\<close>

fun lookup_chain :: "OverlayState \<Rightarrow> bytes \<Rightarrow> bytes option" where
  "lookup_chain (Root s) k = scratchPad s k"
| "lookup_chain (Derived s p) k = (case scratchPad s k of Some v \<Rightarrow> Some v | None \<Rightarrow> lookup_chain p k)"

text \<open>
  A change to the root layer of a chain; the layers above it stay as they are.
\<close>

fun update_root :: "(layer \<Rightarrow> layer) \<Rightarrow> OverlayState \<Rightarrow> OverlayState" where
  "update_root f (Root s) = Root (f s)"
| "update_root f (Derived s p) = Derived s (update_root f p)"

text \<open>
  What \<^verbatim>\<open>loadAccountBatchRPC\<close> returns for an account once every window was answered.
\<close>

definition fetched :: "(bytes \<Rightarrow> hash) \<Rightarrow> upstream \<Rightarrow> address \<Rightarrow> FetchedAccountResult" where
  "fetched K U a =
     \<lparr>Account = zeroAddress, Balance = int (up_balance U a),
      CodeHash = (if up_code U a = [] then zeroHash else K (up_code U a)),
      Nonce = up_nonce U a, Code = up_code U a\<rparr>"

text \<open>
  The upstream value of a datum in the encoding the root scratchpad caches it in.
\<close>

fun cached_upstream :: "(bytes \<Rightarrow> hash) \<Rightarrow> upstream \<Rightarrow> RequestType \<Rightarrow> address \<Rightarrow> hash \<Rightarrow> bytes" where
  "cached_upstream K U GET_BALANCE a key = big_Bytes (int (up_balance U a))"
| "cached_upstream K U GET_NONCE a key = nonce_Bytes (up_nonce U a)"
| "cached_upstream K U GET_CODE a key = up_code U a"
| "cached_upstream K U GET_CODEHASH a key = (if up_code U a = [] then zeroHash else K (up_code U a))"
| "cached_upstream K U GET_STATE a key = up_storage U a key"

text \<open>
  The four root entries of an account are present and hold the upstream balance, nonce
  and code, and the code hash derived from the code.
\<close>

definition account_cached :: "(bytes \<Rightarrow> hash) \<Rightarrow> upstream \<Rightarrow> OverlayState \<Rightarrow> address \<Rightarrow> bool" where
  "account_cached K U st a =
     (scratchPad (getRootState st) (calcKey (BALANCE_KEY K) a) = Some (big_Bytes (int (up_balance U a)))
      \<and> scratchPad (getRootState st) (calcKey (NONCE_KEY K) a) = Some (nonce_Bytes (up_nonce U a))
      \<and> scratchPad (getRootState st) (calcKey (CODE_KEY K) a) = Some (up_code U a)
      \<and> scratchPad (getRootState st) (calcKey (CODEHASH_KEY K) a)
          = Some (if up_code U a = [] then zeroHash else K (up_code U a)))"

text \<open>
  No layer above the root holds one of the four account keys of \<open>a\<close>: the facade has
  not written to the account. The root then holds none of the four entries, or, after
  an earlier read, all of them.
\<close>

definition no_local_writes :: "(bytes \<Rightarrow> hash) \<Rightarrow> OverlayState \<Rightarrow> address \<Rightarrow> bool" where
  "no_local_writes K st a =
     list_all (\<lambda>s. scratchPad s (calcKey (BALANCE_KEY K) a) = None
                  \<and> scratchPad s (calcKey (NONCE_KEY K) a) = None
                  \<and> scratchPad s (calcKey (CODE_KEY K) a) = None
                  \<and> scratchPad s (calcKey (CODEHASH_KEY K) a) = None)
       (butlast (layers st))"

definition account_absent :: "(bytes \<Rightarrow> hash) \<Rightarrow> OverlayState \<Rightarrow> address \<Rightarrow> bool" where
  "account_absent K st a =
     (scratchPad (getRootState st) (calcKey (BALANCE_KEY K) a) = None
      \<and> scratchPad (getRootState st) (calcKey (NONCE_KEY K) a) = None
      \<and> scratchPad (getRootState st) (calcKey (CODE_KEY K) a) = None
      \<and> scratchPad (getRootState st) (calcKey (CODEHASH_KEY K) a) = None)"

text \<open>
  The only fact about Keccak-256 that the account keys need: the four account labels
  do not collide.
\<close>

definition distinct_tags :: "(bytes \<Rightarrow> hash) \<Rightarrow> bool" where
  "distinct_tags K = distinct [BALANCE_KEY K, NONCE_KEY K, CODE_KEY K, CODEHASH_KEY K]"

text \<open>
  A list cut into consecutive windows of \<open>n\<close> elements, the last one possibly shorter.
\<close>

function chunks :: "nat \<Rightarrow> 'a list \<Rightarrow> 'a list list" where
  "chunks n xs = (if n = 0 \<or> xs = [] then [] else take n xs # chunks n (drop n xs))"
  by pat_completeness auto

termination
  by (relation "measure (\<lambda>(n, xs). length xs)") auto

declare chunks.simps [simp del]

text \<open>
  The number of failed transport calls among the calls with index \<open>lo \<le> k < hi\<close>.
\<close>

definition failures :: "upstream \<Rightarrow> nat \<Rightarrow> nat \<Rightarrow> nat" where
  "failures U lo hi = length (filter (transport_fails U) [lo..<hi])"

text \<open>
  \<^verbatim>\<open>SubBalance(a, delta)\<close> followed by \<^verbatim>\<open>GetBalance(a)\<close>: what the second call returns.
\<close>

definition SubBalance_then_GetBalance ::
  "(bytes \<Rightarrow> hash) \<Rightarrow> upstream \<Rightarrow> OverlayStateDB \<Rightarrow> address \<Rightarrow> int \<Rightarrow> (error + int) option" where
  "SubBalance_then_GetBalance K U db a delta =
     (case SubBalance K U db a delta of
        None \<Rightarrow> None
      | Some (Inl err, db1) \<Rightarrow> Some (Inl err)
      | Some (Inr u, db1) \<Rightarrow>
          (case GetBalance K U db1 a of None \<Rightarrow> None | Some (r, db2) \<Rightarrow> Some r))"

text \<open>
  One storage tick: the increase of the root's \<^verbatim>\<open>rpcCnt\<close> (what \<^verbatim>\<open>RPCRequestCount\<close>
  reads) and the number of upstream batch calls.
\<close>

definition tick_cost :: "upstream \<Rightarrow> layer \<Rightarrow> rpc_Client \<Rightarrow> StorageReq list \<Rightarrow> (int \<times> nat) option" where
  "tick_cost U s c pending =
     (case timeSlot_storage U s c pending of
        None \<Rightarrow> None
      | Some (r, s1, c1) \<Rightarrow> Some (rpcCnt s1 - rpcCnt s, length (calls c1) - length (calls c)))"

text \<open>
  One call of a fetcher: whether it returned an error, the number of transport calls
  it made, and the sleeps on record afterwards.
\<close>

definition account_attempts ::
  "(bytes \<Rightarrow> hash) \<Rightarrow> upstream \<Rightarrow> layer \<Rightarrow> rpc_Client \<Rightarrow> address list
    \<Rightarrow> (bool \<times> nat \<times> nat list) option" where
  "account_attempts K U s c accounts =
     (case loadAccountBatchRPC K U s c accounts of
        None \<Rightarrow> None
      | Some (r, s1, c1) \<Rightarrow> Some (isl r, length (calls c1) - length (calls c), slept c1))"

definition storage_attempts ::
  "upstream \<Rightarrow> layer \<Rightarrow> rpc_Client \<Rightarrow> StorageReq list \<Rightarrow> (bool \<times> nat \<times> nat list) option" where
  "storage_attempts U s c reqs =
     (case loadStateBatchRPC U s c reqs of
        None \<Rightarrow> None
      | Some (r, s1, c1) \<Rightarrow> Some (isl r, length (calls c1) - length (calls c), slept c1))"

subsection \<open>Upstream nodes and requests for worked examples\<close>

text \<open>
  A node with balance 100, nonce 3 and a one-byte code for every address, reached by a
  transport that never fails; the same node behind a transport that always fails, and
  behind one whose first call only fails.
\<close>

definition upstream0 :: upstream where
  "upstream0 = \<lparr>up_nonce = (\<lambda>a. 3), up_balance = (\<lambda>a. 100), up_code = (\<lambda>a. [CHR 0x60]),
                up_storage = (\<lambda>a k. BytesToHash k), transport_fails = (\<lambda>k. False)\<rparr>"

definition upstream_down :: upstream where
  "upstream_down = upstream0\<lparr>transport_fails := (\<lambda>k. True)\<rparr>"

definition upstream_blip :: upstream where
  "upstream_blip = upstream0\<lparr>transport_fails := (\<lambda>k. k = 0)\<rparr>"

text \<open>
  Two hundred and fifty reads of different slots of one address.
\<close>

definition pending250 :: "StorageReq list" where
  "pending250 = map (\<lambda>i. \<lparr>Address = addr_a, Key = BytesToHash (be_bytes i), Value = zeroHash\<rparr>) [0..<250]"

section \<open>Auxiliary facts\<close>

subsection \<open>Encodings\<close>

lemma be_nat_snoc: "be_nat (xs @ [c]) = be_nat xs * 256 + of_char c"
  by (simp add: be_nat_def)

lemma be_bytes_0: "be_bytes 0 = []"
  by (subst be_bytes.simps) (simp only: if_True simp_thms)

lemma be_bytes_pos: "n \<noteq> 0 \<Longrightarrow> be_bytes n = be_bytes (n div 256) @ [char_of (n mod 256)]"
  by (subst be_bytes.simps) (simp only: if_False)

lemma be_nat_be_bytes: "be_nat (be_bytes n) = n"
proof (induction n rule: be_bytes.induct)
  case (1 n)
  show ?case
  proof (cases "n = 0")
    case True
    then show ?thesis by (simp only: be_bytes_0) (simp add: be_nat_def)
  next
    case False
    have ih: "be_nat (be_bytes (n div 256)) = n div 256"
      using 1 False by blast
    have "be_nat (be_bytes n) = be_nat (be_bytes (n div 256)) * 256 + of_char (char_of (n mod 256))"
      by (simp only: be_bytes_pos [OF False] be_nat_snoc)
    also have "\<dots> = n div 256 * 256 + n mod 256"
      by (simp only: ih of_char_of mod_mod_trivial)
    also have "\<dots> = n"
      by simp
    finally show ?thesis .
  qed
qed

lemma big_SetBytes_Bytes: "big_SetBytes (big_Bytes x) = \<bar>x\<bar>"
  by (simp add: big_SetBytes_def big_Bytes_def be_nat_be_bytes)

lemma nonce_roundtrip:
  assumes "unat v < 2 ^ 63"
  shows "big_Uint64 (big_SetBytes (nonce_Bytes v)) = v"
proof -
  have "int (unat v) < int (2 ^ 63)"
    using assms by (simp only: of_nat_less_iff)
  then have "uint v < 2 ^ 63"
    by simp
  moreover have "- (2 ^ 63) \<le> uint v"
    by (rule order_trans [of _ 0]) simp_all
  ultimately have "sint v = uint v"
    by (simp add: sint_uint signed_take_bit_int_eq_self)
  then show ?thesis
    by (simp add: nonce_Bytes_def big_SetBytes_Bytes big_Uint64_def)
qed

lemma get_hit_this:
  "scratchPad (this st) (scratchpadKey K action account key) = Some v
   \<Longrightarrow> get K U st c account action key = Some (Inr v, st, c)"
  by (cases st) simp_all

lemma this_scratchPad_store [simp]:
  "scratchPad (this (scratchPad_store k v st)) = (scratchPad (this st))(k \<mapsto> v)"
  by (cases st) (simp_all add: scratchPad_store_def)

lemma parent_update_this [simp]: "parent (update_this f st) = parent st"
  by (cases st) simp_all

lemma this_update_this [simp]: "this (update_this f st) = f (this st)"
  by (cases st) simp_all

lemma RevertToSnapshot_loop_here:
  "deriveCnt (this p) + 1 = r \<Longrightarrow> RevertToSnapshot_loop p r = Inr p"
  by (cases p) simp_all

lemma apply_write_frame:
  "ec (apply_write K db w) = ec db \<and> refundGas (apply_write K db w) = refundGas db
   \<and> parent (state (apply_write K db w)) = parent (state db)
   \<and> deriveCnt (this (state (apply_write K db w))) = deriveCnt (this (state db))"
  by (cases w)
     (simp_all add: SetBalance_def SetNonce_def SetCode_def SetCodeHash_def SetState_def
        Suicide_def StartLogCollection_def AddLog_def AddReceipt_def scratchPad_store_def)

lemma foldl_apply_write_frame:
  "ec (foldl (apply_write K) db W) = ec db \<and> refundGas (foldl (apply_write K) db W) = refundGas db
   \<and> parent (state (foldl (apply_write K) db W)) = parent (state db)
   \<and> deriveCnt (this (state (foldl (apply_write K) db W))) = deriveCnt (this (state db))"
  by (induction W arbitrary: db) (simp_all add: apply_write_frame)

subsection \<open>Layers\<close>

lemma scratchPad_this_Derive [simp]: "scratchPad (this (Derive st)) = Map.empty"
  by (simp add: Derive_def)

lemma parent_Derive [simp]: "parent (Derive st) = Some st"
  by (simp add: Derive_def)

lemma deriveCnt_Derive [simp]: "deriveCnt (this (Derive st)) = deriveCnt (this st) + 1"
  by (simp add: Derive_def)

lemma MergeTo_loop_here: "deriveCnt (this st) = r \<Longrightarrow> MergeTo_loop st r = Inr st"
  by (cases st) simp_all

lemma update_this_comp: "update_this f (update_this g st) = update_this (\<lambda>q. f (g q)) st"
  by (cases st) simp_all

lemma update_this_ident: "(\<And>q. f q = q) \<Longrightarrow> update_this f st = st"
  by (cases st) simp_all

lemma scratchpad_write_store:
  "scratchpad_write w \<Longrightarrow>
     \<exists>k v. \<forall>db. apply_write K db w = db\<lparr>state := scratchPad_store k v (state db)\<rparr>"
  by (cases w)
     (auto simp add: SetBalance_def SetNonce_def SetCode_def SetCodeHash_def SetState_def
        Suicide_def)

lemma merge_simulation:
  "list_all scratchpad_write W \<Longrightarrow>
   \<exists>C. state (foldl (apply_write K) (snd (Snapshot db)) W) = Derived C (state db)
      \<and> deriveCnt C = deriveCnt (this (state db)) + 1
      \<and> ec (foldl (apply_write K) (snd (Snapshot db)) W) = ec db
      \<and> refundGas (foldl (apply_write K) (snd (Snapshot db)) W) = refundGas db
      \<and> foldl (apply_write K) db W =
          db\<lparr>state := update_this (\<lambda>q. q\<lparr>scratchPad := scratchPad q ++ scratchPad C\<rparr>) (state db)\<rparr>"
proof (induction W rule: rev_induct)
  case Nil
  show ?case
    by (simp add: Snapshot_def Derive_def update_this_ident)
next
  case (snoc w W)
  then obtain C where C: "state (foldl (apply_write K) (snd (Snapshot db)) W) = Derived C (state db)"
      "deriveCnt C = deriveCnt (this (state db)) + 1"
      "ec (foldl (apply_write K) (snd (Snapshot db)) W) = ec db"
      "refundGas (foldl (apply_write K) (snd (Snapshot db)) W) = refundGas db"
      "foldl (apply_write K) db W =
          db\<lparr>state := update_this (\<lambda>q. q\<lparr>scratchPad := scratchPad q ++ scratchPad C\<rparr>) (state db)\<rparr>"
    by auto
  from snoc.prems have "scratchpad_write w" by simp
  then obtain k v where kv: "\<And>d. apply_write K d w = d\<lparr>state := scratchPad_store k v (state d)\<rparr>"
    using scratchpad_write_store by blast
  let ?C = "C\<lparr>scratchPad := (scratchPad C)(k \<mapsto> v)\<rparr>"
  have "state (foldl (apply_write K) (snd (Snapshot db)) (W @ [w])) = Derived ?C (state db)"
    by (simp add: kv C scratchPad_store_def)
  moreover have "deriveCnt ?C = deriveCnt (this (state db)) + 1"
    by (simp add: C)
  moreover have "ec (foldl (apply_write K) (snd (Snapshot db)) (W @ [w])) = ec db"
    by (simp add: kv C)
  moreover have "refundGas (foldl (apply_write K) (snd (Snapshot db)) (W @ [w])) = refundGas db"
    by (simp add: kv C)
  moreover have "foldl (apply_write K) db (W @ [w]) =
          db\<lparr>state := update_this (\<lambda>q. q\<lparr>scratchPad := scratchPad q ++ scratchPad ?C\<rparr>) (state db)\<rparr>"
    by (simp add: kv C scratchPad_store_def update_this_comp)
  ultimately show ?case by blast
qed

lemma GetLogs_loop_concat:
  "GetLogs_loop st txHash logs = concat (map (\<lambda>s. txLogs s txHash) (rev (layers st))) @ logs"
  by (induction st arbitrary: logs) simp_all

lemma GetReceipt_loop_find:
  "fst (GetReceipt_loop st txHash logs) =
     (case find (\<lambda>s. receipts s txHash \<noteq> None) (butlast (layers st)) of
        None \<Rightarrow> None
      | Some s \<Rightarrow> map_option (\<lambda>r. r\<lparr>Logs := logs\<rparr>) (receipts s txHash))"
proof (induction st)
  case (Root s)
  show ?case by simp
next
  case (Derived s p)
  have ne: "layers p \<noteq> []" by (cases p) simp_all
  show ?case
    using Derived ne by (cases "receipts s txHash") simp_all
qed

subsection \<open>Fetching storage slots\<close>

lemma chunks_Nil [simp]: "chunks n [] = []"
  by (subst chunks.simps) simp

lemma chunks_step: "0 < n \<Longrightarrow> xs \<noteq> [] \<Longrightarrow> chunks n xs = take n xs # chunks n (drop n xs)"
  by (subst chunks.simps) simp

lemma length_chunks: "0 < n \<Longrightarrow> length (chunks n xs) = (length xs + n - 1) div n"
proof (induction n xs rule: chunks.induct)
  case (1 n xs)
  show ?case
  proof (cases "xs = []")
    case True
    with 1(2) show ?thesis by simp
  next
    case False
    with 1 have ih: "length (chunks n (drop n xs)) = (length (drop n xs) + n - 1) div n"
      by simp
    show ?thesis
    proof (cases "length xs \<le> n")
      case True
      then have "drop n xs = []" by simp
      moreover from True False 1(2) have "(length xs + n - 1) div n = 1"
        by (cases xs) (simp_all add: div_eq_dividend_iff div_nat_eqI)
      ultimately show ?thesis
        using False 1(2) by (simp add: chunks_step)
    next
      case False
      then have "length xs + n - 1 = (length xs - n + n - 1) + n" by simp
      then have "(length xs + n - 1) div n = (length xs - n + n - 1) div n + 1"
        using 1(2) by (metis div_add_self2 less_numeral_extra(3))
      with ih \<open>xs \<noteq> []\<close> 1(2) show ?thesis
        by (simp add: chunks_step)
    qed
  qed
qed

lemma window_end:
  "0 < step \<Longrightarrow>
   nat (if int begin + step > int n then int n else int begin + step) = min (begin + nat step) n"
  by auto

lemma loadState_windows_done:
  "\<not> begin < length reqs \<Longrightarrow> loadState_windows U step reqs begin vals c = Some (Inr vals, c)"
  by (subst loadState_windows.simps) simp

lemma loadState_windows_panic:
  "begin < length reqs \<Longrightarrow> step < 0 \<Longrightarrow>
   loadState_windows U step reqs begin vals c = Some (Inl SliceBoundsPanic, c)"
  by (subst loadState_windows.simps) (simp add: Let_def)

lemma loadState_windows_fail:
  "begin < length reqs \<Longrightarrow> 0 < step \<Longrightarrow> transport_fails U (length (calls c)) \<Longrightarrow>
   loadState_windows U step reqs begin vals c =
     Some (Inl TransportError,
           c\<lparr>calls := calls c @ [getStorageAt_batch (subslice reqs begin (min (begin + nat step) (length reqs)))]\<rparr>)"
  by (subst loadState_windows.simps)
     (simp add: Let_def BatchCallContext_def getStorageAt_batch_def window_end del: of_nat_add)

lemma loadState_windows_ok:
  "begin < length reqs \<Longrightarrow> 0 < step \<Longrightarrow> \<not> transport_fails U (length (calls c)) \<Longrightarrow>
   loadState_windows U step reqs begin vals c =
     loadState_windows U step reqs (begin + nat step)
       (take begin vals
          @ map (\<lambda>r. up_storage U (Address r) (Key r))
              (subslice reqs begin (min (begin + nat step) (length reqs)))
          @ drop (min (begin + nat step) (length reqs)) vals)
       (c\<lparr>calls := calls c @ [getStorageAt_batch (subslice reqs begin (min (begin + nat step) (length reqs)))]\<rparr>)"
  by (subst loadState_windows.simps)
     (simp add: Let_def BatchCallContext_def getStorageAt_batch_def window_end nat_add_distrib
        del: of_nat_add)

lemma subslice_window: "subslice xs b (min (b + n) (length xs)) = take n (drop b xs)"
  by (simp add: subslice_def min_def)

lemma fill_window:
  assumes "length vals = length reqs" "begin < length reqs" "0 < n"
  shows "take (begin + n)
           (take begin vals @ map f (take n (drop begin reqs)) @ drop (min (begin + n) (length reqs)) vals)
         @ map f (drop (begin + n) reqs)
       = take begin vals @ map f (drop begin reqs)"
proof -
  have "map f (drop begin reqs) = map f (take n (drop begin reqs)) @ map f (drop (begin + n) reqs)"
    by (metis append_take_drop_id drop_drop map_append add.commute)
  moreover have "take (begin + n)
           (take begin vals @ map f (take n (drop begin reqs)) @ drop (min (begin + n) (length reqs)) vals)
        = take begin vals @ map f (take n (drop begin reqs))"
    using assms by (auto simp add: min_def)
  ultimately show ?thesis by simp
qed

lemma loadState_windows_quiet:
  assumes "0 < step" and "\<forall>k\<ge>length (calls c). \<not> transport_fails U k"
    and "length vals = length reqs"
  shows "loadState_windows U step reqs begin vals c =
    Some (Inr (take begin vals @ map (\<lambda>r. up_storage U (Address r) (Key r)) (drop begin reqs)),
          c\<lparr>calls := calls c @ map getStorageAt_batch (chunks (nat step) (drop begin reqs))\<rparr>)"
  using assms(2,3)
proof (induction "length reqs - begin" arbitrary: "begin" vals c rule: less_induct)
  case less
  show ?case
  proof (cases "begin < length reqs")
    case False
    with less.prems show ?thesis
      by (simp add: loadState_windows_done)
  next
    case True
    let ?hi = "min (begin + nat step) (length reqs)"
    let ?vals = "take begin vals
          @ map (\<lambda>r. up_storage U (Address r) (Key r)) (subslice reqs begin ?hi) @ drop ?hi vals"
    let ?c = "c\<lparr>calls := calls c @ [getStorageAt_batch (subslice reqs begin ?hi)]\<rparr>"
    from less.prems have ok: "\<not> transport_fails U (length (calls c))" by simp
    have step: "0 < nat step" using assms(1) by simp
    have len: "length ?vals = length reqs"
      using less.prems(2) True by (auto simp add: subslice_def min_def)
    have quiet: "\<forall>k\<ge>length (calls ?c). \<not> transport_fails U k"
      using less.prems(1) by simp
    have "length reqs - (begin + nat step) < length reqs - begin"
      using True step by simp
    from less.hyps [OF this quiet len]
    have "loadState_windows U step reqs (begin + nat step) ?vals ?c =
      Some (Inr (take (begin + nat step) ?vals
                  @ map (\<lambda>r. up_storage U (Address r) (Key r)) (drop (begin + nat step) reqs)),
            ?c\<lparr>calls := calls ?c @ map getStorageAt_batch (chunks (nat step) (drop (begin + nat step) reqs))\<rparr>)" .
    moreover have "take (begin + nat step) ?vals
                  @ map (\<lambda>r. up_storage U (Address r) (Key r)) (drop (begin + nat step) reqs)
        = take begin vals @ map (\<lambda>r. up_storage U (Address r) (Key r)) (drop begin reqs)"
      unfolding subslice_window using less.prems(2) True step by (rule fill_window)
    moreover have "chunks (nat step) (drop begin reqs)
        = subslice reqs begin ?hi # chunks (nat step) (drop (begin + nat step) reqs)"
      using True step by (simp add: chunks_step subslice_window add.commute)
    ultimately show ?thesis
      using loadState_windows_ok [OF True assms(1) ok, of vals] by simp
  qed
qed

lemma failures_empty [simp]: "failures U lo lo = 0"
  by (simp add: failures_def)

lemma failures_first:
  "lo < hi \<Longrightarrow> failures U lo hi = (if transport_fails U lo then 1 else 0) + failures U (Suc lo) hi"
  by (simp add: failures_def upt_conv_Cons)

lemma failures_one [simp]: "failures U lo (Suc lo) = (if transport_fails U lo then 1 else 0)"
  by (simp add: failures_def)

lemma fill_all: "map (\<lambda>(r, v). r\<lparr>Value := v\<rparr>) (zip reqs (map f reqs)) = map (\<lambda>r. r\<lparr>Value := f r\<rparr>) reqs"
  by (induction reqs) simp_all

lemma loadState_windows_total:
  assumes "0 < step"
  shows "\<exists>r c'. loadState_windows U step reqs begin vals c = Some (r, c')
     \<and> slept c' = slept c
     \<and> (case r of
          Inl e \<Rightarrow> e = TransportError \<and> length (calls c) < length (calls c')
                   \<and> transport_fails U (length (calls c') - 1)
                   \<and> failures U (length (calls c)) (length (calls c')) = 1
        | Inr v \<Rightarrow> failures U (length (calls c)) (length (calls c')) = 0
                   \<and> length (calls c) \<le> length (calls c')
                   \<and> (begin < length reqs \<longrightarrow> length (calls c) < length (calls c'))
                   \<and> (length vals = length reqs \<longrightarrow>
                        v = take begin vals @ map (\<lambda>r. up_storage U (Address r) (Key r)) (drop begin reqs)))"
proof (induction "length reqs - begin" arbitrary: "begin" vals c rule: less_induct)
  case less
  show ?case
  proof (cases "begin < length reqs")
    case False
    then show ?thesis
      by (simp add: loadState_windows_done)
  next
    case True
    let ?hi = "min (begin + nat step) (length reqs)"
    let ?vals = "take begin vals
          @ map (\<lambda>r. up_storage U (Address r) (Key r)) (subslice reqs begin ?hi) @ drop ?hi vals"
    let ?c = "c\<lparr>calls := calls c @ [getStorageAt_batch (subslice reqs begin ?hi)]\<rparr>"
    show ?thesis
    proof (cases "transport_fails U (length (calls c))")
      case fails: True
      show ?thesis
        using fails by (simp add: loadState_windows_fail [OF True assms fails])
    next
      case ok: False
      have step: "0 < nat step" using assms by simp
      have "length reqs - (begin + nat step) < length reqs - begin"
        using True step by simp
      from less.hyps [OF this, of ?vals ?c]
      obtain r c' where rec: "loadState_windows U step reqs (begin + nat step) ?vals ?c = Some (r, c')"
        and sl: "slept c' = slept ?c"
        and r: "case r of
          Inl e \<Rightarrow> e = TransportError \<and> length (calls ?c) < length (calls c')
                   \<and> transport_fails U (length (calls c') - 1)
                   \<and> failures U (length (calls ?c)) (length (calls c')) = 1
        | Inr v \<Rightarrow> failures U (length (calls ?c)) (length (calls c')) = 0
                   \<and> length (calls ?c) \<le> length (calls c')
                   \<and> (begin + nat step < length reqs \<longrightarrow> length (calls ?c) < length (calls c'))
                   \<and> (length ?vals = length reqs \<longrightarrow>
                        v = take (begin + nat step) ?vals
                            @ map (\<lambda>r. up_storage U (Address r) (Key r)) (drop (begin + nat step) reqs))"
        by blast
      have eq: "loadState_windows U step reqs begin vals c = Some (r, c')"
        using loadState_windows_ok [OF True assms ok, of vals] rec by simp
      have fill: "length ?vals = length reqs \<and>
          take (begin + nat step) ?vals
            @ map (\<lambda>r. up_storage U (Address r) (Key r)) (drop (begin + nat step) reqs)
          = take begin vals @ map (\<lambda>r. up_storage U (Address r) (Key r)) (drop begin reqs)"
        if len: "length vals = length reqs"
      proof
        show "length ?vals = length reqs"
          using len True by (auto simp add: subslice_def min_def)
        show "take (begin + nat step) ?vals
            @ map (\<lambda>r. up_storage U (Address r) (Key r)) (drop (begin + nat step) reqs)
          = take begin vals @ map (\<lambda>r. up_storage U (Address r) (Key r)) (drop begin reqs)"
          unfolding subslice_window using len True step by (rule fill_window)
      qed
      show ?thesis
      proof (cases r)
        case (Inl e)
        with r have "length (calls c) < length (calls c')"
          and "failures U (length (calls c)) (length (calls c')) = 1"
          using ok by (simp_all add: failures_first)
        with Inl r sl eq show ?thesis by simp
      next
        case (Inr v)
        with r have le: "Suc (length (calls c)) \<le> length (calls c')" by simp
        then have "failures U (length (calls c)) (length (calls c')) = 0"
          using r Inr ok by (simp add: failures_first)
        with Inr r sl eq le fill show ?thesis by auto
      qed
    qed
  qed
qed

lemma loadStateBatchRPC_total:
  assumes "0 < batchSize s"
  shows "\<exists>r c'. loadStateBatchRPC U s c reqs = Some (r, s\<lparr>rpcCnt := rpcCnt s + 1\<rparr>, c')
     \<and> slept c' = slept c
     \<and> (case r of
          Inl e \<Rightarrow> e = TransportError \<and> length (calls c) < length (calls c')
                   \<and> transport_fails U (length (calls c') - 1)
                   \<and> failures U (length (calls c)) (length (calls c')) = 1
        | Inr rs \<Rightarrow> failures U (length (calls c)) (length (calls c')) = 0
                   \<and> length (calls c) \<le> length (calls c')
                   \<and> rs = map (\<lambda>r. r\<lparr>Value := up_storage U (Address r) (Key r)\<rparr>) reqs)"
proof -
  from loadState_windows_total [OF assms, of U reqs 0 "replicate (length reqs) zeroHash" c]
  obtain r c' where w: "loadState_windows U (batchSize s) reqs 0 (replicate (length reqs) zeroHash) c = Some (r, c')"
    and sl: "slept c' = slept c"
    and r: "case r of
          Inl e \<Rightarrow> e = TransportError \<and> length (calls c) < length (calls c')
                   \<and> transport_fails U (length (calls c') - 1)
                   \<and> failures U (length (calls c)) (length (calls c')) = 1
        | Inr v \<Rightarrow> failures U (length (calls c)) (length (calls c')) = 0
                   \<and> length (calls c) \<le> length (calls c')
                   \<and> (0 < length reqs \<longrightarrow> length (calls c) < length (calls c'))
                   \<and> (length (replicate (length reqs) zeroHash) = length reqs \<longrightarrow>
                        v = take 0 (replicate (length reqs) zeroHash)
                            @ map (\<lambda>r. up_storage U (Address r) (Key r)) (drop 0 reqs))"
    by blast
  show ?thesis
  proof (cases r)
    case (Inl e)
    with w sl r show ?thesis by (simp add: loadStateBatchRPC_def)
  next
    case (Inr v)
    with w sl r show ?thesis by (simp add: loadStateBatchRPC_def fill_all)
  qed
qed

lemma timeSlot_storage_retry_returns:
  assumes "0 < batchSize s" and "\<forall>k\<ge>N. \<not> transport_fails U k"
  shows "\<exists>n c'. timeSlot_storage_retry U s c pending =
           Some (Inr (map (\<lambda>r. r\<lparr>Value := up_storage U (Address r) (Key r)\<rparr>) pending),
                 s\<lparr>rpcCnt := rpcCnt s + 1 + int n\<rparr>, c')"
  using assms(1)
proof (induction "N - length (calls c)" arbitrary: s c rule: less_induct)
  case less
  from loadStateBatchRPC_total [OF less.prems, of U c pending]
  obtain r c1 where l: "loadStateBatchRPC U s c pending = Some (r, s\<lparr>rpcCnt := rpcCnt s + 1\<rparr>, c1)"
    and r: "case r of
          Inl e \<Rightarrow> e = TransportError \<and> length (calls c) < length (calls c1)
                   \<and> transport_fails U (length (calls c1) - 1)
                   \<and> failures U (length (calls c)) (length (calls c1)) = 1
        | Inr rs \<Rightarrow> failures U (length (calls c)) (length (calls c1)) = 0
                   \<and> length (calls c) \<le> length (calls c1)
                   \<and> rs = map (\<lambda>r. r\<lparr>Value := up_storage U (Address r) (Key r)\<rparr>) pending"
    by blast
  show ?case
  proof (cases r)
    case (Inr rs)
    with l r have "timeSlot_storage_retry U s c pending =
           Some (Inr (map (\<lambda>r. r\<lparr>Value := up_storage U (Address r) (Key r)\<rparr>) pending),
                 s\<lparr>rpcCnt := rpcCnt s + 1 + int 0\<rparr>, c1)"
      by (subst timeSlot_storage_retry.simps) simp
    then show ?thesis by blast
  next
    case (Inl e)
    with r have e: "e = TransportError" and lt: "length (calls c) < length (calls c1)"
      and f: "transport_fails U (length (calls c1) - 1)"
      by simp_all
    from f assms(2) have "length (calls c1) - 1 < N"
      by (meson not_le)
    with lt have m: "N - length (calls (Sleep 1000 c1)) < N - length (calls c)"
      by (simp add: Sleep_def)
    have b: "0 < batchSize (s\<lparr>rpcCnt := rpcCnt s + 1\<rparr>)"
      using less.prems by simp
    from less.hyps [OF m b]
    obtain n c' where "timeSlot_storage_retry U (s\<lparr>rpcCnt := rpcCnt s + 1\<rparr>) (Sleep 1000 c1) pending =
           Some (Inr (map (\<lambda>r. r\<lparr>Value := up_storage U (Address r) (Key r)\<rparr>) pending),
                 s\<lparr>rpcCnt := rpcCnt s + 1\<rparr>\<lparr>rpcCnt := rpcCnt (s\<lparr>rpcCnt := rpcCnt s + 1\<rparr>) + 1 + int n\<rparr>, c')"
      by blast
    with l Inl e have "timeSlot_storage_retry U s c pending =
           Some (Inr (map (\<lambda>r. r\<lparr>Value := up_storage U (Address r) (Key r)\<rparr>) pending),
                 s\<lparr>rpcCnt := rpcCnt s + 1 + int (Suc n)\<rparr>, c')"
      by (subst timeSlot_storage_retry.simps) (simp add: add.assoc)
    then show ?thesis by blast
  qed
qed

lemma loadState_returns:
  assumes "0 < batchSize s" and "\<forall>k\<ge>N. \<not> transport_fails U k"
  shows "\<exists>n c'. loadState U s c account key =
           Some (Inr (up_storage U account key), s\<lparr>rpcCnt := rpcCnt s + 1 + int n\<rparr>, c')"
proof -
  from timeSlot_storage_retry_returns [OF assms, of c "[\<lparr>Address = account, Key = key, Value = zeroHash\<rparr>]"]
  show ?thesis
    by (auto simp add: loadState_def timeSlot_storage_def)
qed

subsection \<open>Fetching accounts\<close>

lemma length_batchElem: "length (batchElem accounts) = 3 * length accounts"
  by (induction accounts) (simp_all add: batchElem_def)

lemma loadAccount_windows_done:
  "\<not> begin < length (batchElem accounts) \<Longrightarrow>
   loadAccount_windows U step accounts begin rpcTries result c = Some (Inr result, c)"
  by (subst loadAccount_windows.simps) simp

lemma loadAccount_windows_panic:
  "begin < length (batchElem accounts) \<Longrightarrow> step < 0 \<Longrightarrow>
   loadAccount_windows U step accounts begin rpcTries result c = Some (Inl SliceBoundsPanic, c)"
  by (subst loadAccount_windows.simps) (simp add: Let_def)

lemma loadAccount_windows_fail_last:
  "begin < length (batchElem accounts) \<Longrightarrow> 0 < step \<Longrightarrow> transport_fails U (length (calls c)) \<Longrightarrow>
   5 \<le> rpcTries \<Longrightarrow>
   loadAccount_windows U step accounts begin rpcTries result c =
     Some (Inl TransportError,
           c\<lparr>calls := calls c @ [subslice (batchElem accounts) begin
                                     (min (begin + nat step) (length (batchElem accounts)))]\<rparr>)"
  by (subst loadAccount_windows.simps)
     (simp add: Let_def BatchCallContext_def window_end del: of_nat_add)

lemma loadAccount_windows_fail_retry:
  "begin < length (batchElem accounts) \<Longrightarrow> 0 < step \<Longrightarrow> transport_fails U (length (calls c)) \<Longrightarrow>
   rpcTries < 5 \<Longrightarrow>
   loadAccount_windows U step accounts begin rpcTries result c =
     loadAccount_windows U step accounts begin (Suc rpcTries) result
       (Sleep 100 (c\<lparr>calls := calls c @ [subslice (batchElem accounts) begin
                                     (min (begin + nat step) (length (batchElem accounts)))]\<rparr>))"
  by (subst loadAccount_windows.simps)
     (simp add: Let_def BatchCallContext_def window_end del: of_nat_add)

lemma loadAccount_windows_ok:
  "begin < length (batchElem accounts) \<Longrightarrow> 0 < step \<Longrightarrow> \<not> transport_fails U (length (calls c)) \<Longrightarrow>
   loadAccount_windows U step accounts begin rpcTries result c =
     loadAccount_windows U step accounts (begin + nat step) rpcTries
       (store_answers U accounts begin (min (begin + nat step) (length (batchElem accounts))) result)
       (c\<lparr>calls := calls c @ [subslice (batchElem accounts) begin
                                     (min (begin + nat step) (length (batchElem accounts)))]\<rparr>)"
  by (subst loadAccount_windows.simps)
     (simp add: Let_def BatchCallContext_def window_end nat_add_distrib del: of_nat_add)

lemma length_store_answers [simp]: "length (store_answers U accounts lo hi result) = length result"
  by (simp add: store_answers_def)

lemma nth_store_answers:
  "i < length result \<Longrightarrow>
   store_answers U accounts lo hi result ! i =
     (result ! i)\<lparr>Nonce := (if lo \<le> 3 * i \<and> 3 * i < hi then up_nonce U (accounts ! i) else Nonce (result ! i)),
              Balance := (if lo \<le> 3 * i + 1 \<and> 3 * i + 1 < hi
                          then int (up_balance U (accounts ! i)) else Balance (result ! i)),
              Code := (if lo \<le> 3 * i + 2 \<and> 3 * i + 2 < hi
                       then up_code U (accounts ! i) else Code (result ! i))\<rparr>"
  by (simp add: store_answers_def nth_enumerate_eq)

lemma store_answers_empty: "hi \<le> lo \<Longrightarrow> store_answers U accounts lo hi result = result"
  by (rule nth_equalityI) (auto simp add: nth_store_answers)

lemma store_answers_compose:
  "lo \<le> mid \<Longrightarrow> mid \<le> hi \<Longrightarrow>
   store_answers U accounts mid hi (store_answers U accounts lo mid result)
     = store_answers U accounts lo hi result"
  by (rule nth_equalityI) (auto simp add: nth_store_answers)

lemma store_answers_full:
  "map (\<lambda>r. r\<lparr>CodeHash := (if length (Code r) = 0 then zeroHash else K (Code r))\<rparr>)
     (store_answers U accounts 0 (3 * length accounts)
        (replicate (length accounts) zeroFetchedAccountResult))
   = map (fetched K U) accounts"
  by (rule nth_equalityI)
     (simp_all add: nth_store_answers fetched_def zeroFetchedAccountResult_def)

lemma store_answers_next:
  assumes "begin < n"
  shows "store_answers U accounts (begin + k) n (store_answers U accounts begin (min (begin + k) n) result)
          = store_answers U accounts begin n result"
proof (cases "begin + k \<le> n")
  case True
  then show ?thesis by (simp add: store_answers_compose min_def)
next
  case False
  then show ?thesis by (simp add: store_answers_empty min_def)
qed

lemma loadAccount_windows_total:
  assumes "0 < step" and "rpcTries \<le> 5"
  shows "\<exists>r c'. loadAccount_windows U step accounts begin rpcTries result c = Some (r, c')
     \<and> (case r of
          Inl e \<Rightarrow> e = TransportError \<and> length (calls c) < length (calls c')
                   \<and> transport_fails U (length (calls c') - 1)
                   \<and> rpcTries + failures U (length (calls c)) (length (calls c')) = 6
                   \<and> slept c' = slept c @ replicate (5 - rpcTries) 100
        | Inr res \<Rightarrow> rpcTries + failures U (length (calls c)) (length (calls c')) \<le> 5
                   \<and> slept c' = slept c @ replicate (failures U (length (calls c)) (length (calls c'))) 100
                   \<and> length (calls c) \<le> length (calls c')
                   \<and> (length result = length accounts \<longrightarrow>
                        res = store_answers U accounts begin (length (batchElem accounts)) result))"
  using assms(2)
proof (induction "(length (batchElem accounts) - begin) * 6 + (5 - rpcTries)"
        arbitrary: "begin" rpcTries result c rule: less_induct)
  case less
  let ?n = "length (batchElem accounts)"
  let ?hi = "min (begin + nat step) ?n"
  let ?c = "c\<lparr>calls := calls c @ [subslice (batchElem accounts) begin ?hi]\<rparr>"
  show ?case
  proof (cases "begin < ?n")
    case False
    then show ?thesis
      using less.prems by (simp add: loadAccount_windows_done store_answers_empty)
  next
    case True
    have step: "0 < nat step" using assms(1) by simp
    show ?thesis
    proof (cases "transport_fails U (length (calls c))")
      case ok: False
      let ?res = "store_answers U accounts begin ?hi result"
      have m: "(?n - (begin + nat step)) * 6 + (5 - rpcTries) < (?n - begin) * 6 + (5 - rpcTries)"
        using True step by simp
      from less.hyps [OF m less.prems, of ?res ?c]
      obtain r c' where rec: "loadAccount_windows U step accounts (begin + nat step) rpcTries ?res ?c = Some (r, c')"
        and r: "case r of
          Inl e \<Rightarrow> e = TransportError \<and> length (calls ?c) < length (calls c')
                   \<and> transport_fails U (length (calls c') - 1)
                   \<and> rpcTries + failures U (length (calls ?c)) (length (calls c')) = 6
                   \<and> slept c' = slept ?c @ replicate (5 - rpcTries) 100
        | Inr res \<Rightarrow> rpcTries + failures U (length (calls ?c)) (length (calls c')) \<le> 5
                   \<and> slept c' = slept ?c @ replicate (failures U (length (calls ?c)) (length (calls c'))) 100
                   \<and> length (calls ?c) \<le> length (calls c')
                   \<and> (length ?res = length accounts \<longrightarrow>
                        res = store_answers U accounts (begin + nat step) ?n ?res)"
        by blast
      have eq: "loadAccount_windows U step accounts begin rpcTries result c = Some (r, c')"
        using loadAccount_windows_ok [OF True assms(1) ok, of rpcTries result] rec by simp
      have f: "failures U (length (calls c)) (length (calls c')) = failures U (length (calls ?c)) (length (calls c'))"
        if "length (calls ?c) \<le> length (calls c')"
        using that ok by (simp add: failures_first)
      show ?thesis
      proof (cases r)
        case (Inl e)
        with r f eq show ?thesis by simp
      next
        case (Inr res)
        with r f eq show ?thesis
          by (simp add: store_answers_next [OF True])
      qed
    next
      case fails: True
      show ?thesis
      proof (cases "rpcTries < 5")
        case False
        with less.prems have "rpcTries = 5" by simp
        then show ?thesis
          using fails by (simp add: loadAccount_windows_fail_last [OF True assms(1) fails])
      next
        case retry: True
        have m: "(?n - begin) * 6 + (5 - Suc rpcTries) < (?n - begin) * 6 + (5 - rpcTries)"
          using retry by simp
        have t: "Suc rpcTries \<le> 5" using retry by simp
        from less.hyps [OF m t, of result "Sleep 100 ?c"]
        obtain r c' where rec: "loadAccount_windows U step accounts begin (Suc rpcTries) result (Sleep 100 ?c) = Some (r, c')"
          and r: "case r of
          Inl e \<Rightarrow> e = TransportError \<and> length (calls (Sleep 100 ?c)) < length (calls c')
                   \<and> transport_fails U (length (calls c') - 1)
                   \<and> Suc rpcTries + failures U (length (calls (Sleep 100 ?c))) (length (calls c')) = 6
                   \<and> slept c' = slept (Sleep 100 ?c) @ replicate (5 - Suc rpcTries) 100
        | Inr res \<Rightarrow> Suc rpcTries + failures U (length (calls (Sleep 100 ?c))) (length (calls c')) \<le> 5
                   \<and> slept c' = slept (Sleep 100 ?c)
                        @ replicate (failures U (length (calls (Sleep 100 ?c))) (length (calls c'))) 100
                   \<and> length (calls (Sleep 100 ?c)) \<le> length (calls c')
                   \<and> (length result = length accounts \<longrightarrow>
                        res = store_answers U accounts begin ?n result)"
          by blast
        have eq: "loadAccount_windows U step accounts begin rpcTries result c = Some (r, c')"
          using loadAccount_windows_fail_retry [OF True assms(1) fails retry, of result] rec by simp
        have f: "failures U (length (calls c)) (length (calls c'))
                  = Suc (failures U (length (calls (Sleep 100 ?c))) (length (calls c')))"
          if "length (calls (Sleep 100 ?c)) \<le> length (calls c')"
          using that fails by (simp add: failures_first Sleep_def)
        have sl: "slept (Sleep 100 ?c) @ replicate k 100 = slept c @ replicate (Suc k) 100" for k
          by (simp add: Sleep_def)
        show ?thesis
        proof (cases r)
          case (Inl e)
          with r have "slept c' = slept c @ replicate (Suc (5 - Suc rpcTries)) 100"
            by (simp only: sl sum.case)
          moreover have "Suc (5 - Suc rpcTries) = 5 - rpcTries"
            using retry by simp
          ultimately have "slept c' = slept c @ replicate (5 - rpcTries) 100"
            by (simp only:)
          moreover from Inl r have "e = TransportError"
            and "length (calls c) < length (calls c')"
            and "transport_fails U (length (calls c') - 1)"
            and "Suc rpcTries + failures U (length (calls (Sleep 100 ?c))) (length (calls c')) = 6"
            and "length (calls (Sleep 100 ?c)) \<le> length (calls c')"
            by (simp_all add: Sleep_def)
          ultimately show ?thesis
            using Inl f eq by simp
        next
          case (Inr res)
          with r have "slept c' = slept c
              @ replicate (Suc (failures U (length (calls (Sleep 100 ?c))) (length (calls c')))) 100"
            by (simp only: sl sum.case)
          with Inr r f eq show ?thesis
            by (simp add: Sleep_def)
        qed
      qed
    qed
  qed
qed

lemma loadAccountBatchRPC_total:
  assumes "0 < batchSize s"
  shows "\<exists>r c'. loadAccountBatchRPC K U s c accounts =
            Some (r, s\<lparr>accessedAccounts := accessedAccounts s \<union> set accounts\<rparr>, c')
     \<and> (case r of
          Inl e \<Rightarrow> e = TransportError \<and> length (calls c) < length (calls c')
                   \<and> transport_fails U (length (calls c') - 1)
                   \<and> failures U (length (calls c)) (length (calls c')) = 6
                   \<and> slept c' = slept c @ replicate 5 100
        | Inr res \<Rightarrow> failures U (length (calls c)) (length (calls c')) \<le> 5
                   \<and> slept c' = slept c @ replicate (failures U (length (calls c)) (length (calls c'))) 100
                   \<and> length (calls c) \<le> length (calls c')
                   \<and> res = map (fetched K U) accounts)"
proof -
  let ?z = "replicate (length accounts) zeroFetchedAccountResult"
  from loadAccount_windows_total [OF assms, of 0 U accounts 0 ?z c]
  obtain r c' where w: "loadAccount_windows U (batchSize s) accounts 0 0 ?z c = Some (r, c')"
    and r: "case r of
          Inl e \<Rightarrow> e = TransportError \<and> length (calls c) < length (calls c')
                   \<and> transport_fails U (length (calls c') - 1)
                   \<and> 0 + failures U (length (calls c)) (length (calls c')) = 6
                   \<and> slept c' = slept c @ replicate (5 - 0) 100
        | Inr res \<Rightarrow> 0 + failures U (length (calls c)) (length (calls c')) \<le> 5
                   \<and> slept c' = slept c @ replicate (failures U (length (calls c)) (length (calls c'))) 100
                   \<and> length (calls c) \<le> length (calls c')
                   \<and> (length ?z = length accounts \<longrightarrow>
                        res = store_answers U accounts 0 (length (batchElem accounts)) ?z)"
    by blast
  show ?thesis
  proof (cases r)
    case (Inl e)
    with w r show ?thesis by (simp add: loadAccountBatchRPC_def)
  next
    case (Inr res)
    with w r show ?thesis
      by (simp add: loadAccountBatchRPC_def length_batchElem store_answers_full [simplified])
  qed
qed

lemma timeSlot_account_retry_returns:
  assumes "0 < batchSize s" and "\<forall>k\<ge>N. \<not> transport_fails U k"
  shows "\<exists>c'. timeSlot_account_retry K U s c accounts =
           Some (Inr (map (fetched K U) accounts),
                 s\<lparr>accessedAccounts := accessedAccounts s \<union> set accounts\<rparr>, c')"
  using assms(1)
proof (induction "N - length (calls c)" arbitrary: s c rule: less_induct)
  case less
  let ?s = "s\<lparr>accessedAccounts := accessedAccounts s \<union> set accounts\<rparr>"
  from loadAccountBatchRPC_total [OF less.prems, of K U c accounts]
  obtain r c1 where l: "loadAccountBatchRPC K U s c accounts = Some (r, ?s, c1)"
    and r: "case r of
          Inl e \<Rightarrow> e = TransportError \<and> length (calls c) < length (calls c1)
                   \<and> transport_fails U (length (calls c1) - 1)
                   \<and> failures U (length (calls c)) (length (calls c1)) = 6
                   \<and> slept c1 = slept c @ replicate 5 100
        | Inr res \<Rightarrow> failures U (length (calls c)) (length (calls c1)) \<le> 5
                   \<and> slept c1 = slept c @ replicate (failures U (length (calls c)) (length (calls c1))) 100
                   \<and> length (calls c) \<le> length (calls c1)
                   \<and> res = map (fetched K U) accounts"
    by blast
  show ?case
  proof (cases r)
    case (Inr res)
    with l r have "timeSlot_account_retry K U s c accounts = Some (Inr (map (fetched K U) accounts), ?s, c1)"
      by (subst timeSlot_account_retry.simps) simp
    then show ?thesis by blast
  next
    case (Inl e)
    with r have e: "e = TransportError" and lt: "length (calls c) < length (calls c1)"
      and f: "transport_fails U (length (calls c1) - 1)"
      by simp_all
    from f assms(2) have "length (calls c1) - 1 < N"
      by (meson not_le)
    with lt have m: "N - length (calls (Sleep 1000 c1)) < N - length (calls c)"
      by (simp add: Sleep_def)
    have b: "0 < batchSize ?s"
      using less.prems by simp
    from less.hyps [OF m b]
    obtain c' where "timeSlot_account_retry K U ?s (Sleep 1000 c1) accounts =
           Some (Inr (map (fetched K U) accounts),
                 ?s\<lparr>accessedAccounts := accessedAccounts ?s \<union> set accounts\<rparr>, c')"
      by blast
    with l Inl e have "timeSlot_account_retry K U s c accounts =
           Some (Inr (map (fetched K U) accounts), ?s, c')"
      by (subst timeSlot_account_retry.simps) (simp add: Un_assoc)
    then show ?thesis by blast
  qed
qed

lemma loadAccount_returns:
  assumes "0 < batchSize s" and "\<forall>k\<ge>N. \<not> transport_fails U k"
  shows "\<exists>c'. loadAccount K U s c account =
           Some (Inr (fetched K U account), s\<lparr>accessedAccounts := insert account (accessedAccounts s)\<rparr>, c')"
proof -
  from timeSlot_account_retry_returns [OF assms, of K c "[account]"]
  show ?thesis
    by (auto simp add: loadAccount_def timeSlot_account_def)
qed

subsection \<open>Reads through the chain\<close>

lemma getRootState_update_root [simp]: "getRootState (update_root f st) = f (getRootState st)"
  by (induction st) simp_all

lemma butlast_layers_update_root [simp]: "butlast (layers (update_root f st)) = butlast (layers st)"
proof (induction st)
  case (Root s)
  show ?case by simp
next
  case (Derived s p)
  have "layers q \<noteq> []" for q by (cases q) simp_all
  with Derived show ?case by simp
qed

lemma lookup_chain_root: "lookup_chain st k = None \<Longrightarrow> scratchPad (getRootState st) k = None"
  by (induction st) (simp_all split: option.splits)

lemma get_hit:
  "lookup_chain st (scratchpadKey K action account key) = Some v
   \<Longrightarrow> get K U st c account action key = Some (Inr v, st, c)"
  by (induction st) (simp_all split: option.splits)

lemma get_miss_state:
  assumes "lookup_chain st (calcStateKey K account key) = None"
    and "0 < batchSize (getRootState st)" and "\<forall>k\<ge>N. \<not> transport_fails U k"
  shows "\<exists>n c'. get K U st c account GET_STATE key =
           Some (Inr (up_storage U account key),
                 update_root (\<lambda>s. s\<lparr>rpcCnt := rpcCnt s + 1 + int n,
                                     scratchPad := (scratchPad s)(calcStateKey K account key
                                                                   \<mapsto> up_storage U account key)\<rparr>) st,
                 c')"
  using assms(1,2)
proof (induction st)
  case (Root s)
  then have "0 < batchSize s" by simp
  from loadState_returns [OF this assms(3), of c account key]
  obtain n c' where "loadState U s c account key =
           Some (Inr (up_storage U account key), s\<lparr>rpcCnt := rpcCnt s + 1 + int n\<rparr>, c')"
    by blast
  with Root have "get K U (Root s) c account GET_STATE key =
           Some (Inr (up_storage U account key),
                 update_root (\<lambda>s. s\<lparr>rpcCnt := rpcCnt s + 1 + int n,
                                     scratchPad := (scratchPad s)(calcStateKey K account key
                                                                   \<mapsto> up_storage U account key)\<rparr>) (Root s),
                 c')"
    by simp
  then show ?case by blast
next
  case (Derived s p)
  then have "lookup_chain p (calcStateKey K account key) = None" "0 < batchSize (getRootState p)"
    and here: "scratchPad s (calcStateKey K account key) = None"
    by (simp_all split: option.splits)
  from Derived.IH [OF this(1,2)] here show ?case
    by auto
qed

lemma get_miss_account:
  assumes "lookup_chain st (scratchpadKey K action account key) = None"
    and "action \<noteq> GET_STATE"
    and "0 < batchSize (getRootState st)" and "\<forall>k\<ge>N. \<not> transport_fails U k"
  shows "\<exists>c'. get K U st c account action key =
           Some (Inr (map_read (populate K account (fetched K U account) (scratchPad (getRootState st)))
                        (scratchpadKey K action account key)),
                 update_root (\<lambda>s. s\<lparr>accessedAccounts := insert account (accessedAccounts s),
                                     scratchPad := populate K account (fetched K U account) (scratchPad s)\<rparr>) st,
                 c')"
  using assms(1,3)
proof (induction st)
  case (Root s)
  then have "0 < batchSize s" by simp
  from loadAccount_returns [OF this assms(4), of K c account]
  obtain c' where "loadAccount K U s c account =
           Some (Inr (fetched K U account), s\<lparr>accessedAccounts := insert account (accessedAccounts s)\<rparr>, c')"
    by blast
  with Root assms(2) have "get K U (Root s) c account action key =
           Some (Inr (map_read (populate K account (fetched K U account) (scratchPad (getRootState (Root s))))
                        (scratchpadKey K action account key)),
                 update_root (\<lambda>s. s\<lparr>accessedAccounts := insert account (accessedAccounts s),
                                     scratchPad := populate K account (fetched K U account) (scratchPad s)\<rparr>) (Root s),
                 c')"
    by (cases action) simp_all
  then show ?case by blast
next
  case (Derived s p)
  then have "lookup_chain p (scratchpadKey K action account key) = None" "0 < batchSize (getRootState p)"
    and here: "scratchPad s (scratchpadKey K action account key) = None"
    by (simp_all split: option.splits)
  from Derived.IH [OF this(1,2)] here show ?case
    by auto
qed

lemma calcKey_inject [simp]: "calcKey t a = calcKey t' a \<longleftrightarrow> t = t'"
  by (simp add: calcKey_def)

lemma populate_entries:
  assumes "distinct_tags K"
  shows "populate K a r sp (calcKey (BALANCE_KEY K) a)
           = Some (case sp (calcKey (BALANCE_KEY K) a) of None \<Rightarrow> big_Bytes (Balance r) | Some v \<Rightarrow> v)"
    and "populate K a r sp (calcKey (NONCE_KEY K) a)
           = Some (case sp (calcKey (NONCE_KEY K) a) of None \<Rightarrow> nonce_Bytes (Nonce r) | Some v \<Rightarrow> v)"
    and "populate K a r sp (calcKey (CODE_KEY K) a)
           = Some (case sp (calcKey (CODE_KEY K) a) of None \<Rightarrow> Code r | Some v \<Rightarrow> v)"
    and "populate K a r sp (calcKey (CODEHASH_KEY K) a)
           = Some (case sp (calcKey (CODEHASH_KEY K) a) of None \<Rightarrow> CodeHash r | Some v \<Rightarrow> v)"
  using assms
  by (auto simp add: populate_def store_if_absent_def distinct_tags_def split: option.splits)

lemma populate_balance_first:
  "sp (calcKey (BALANCE_KEY K) a) = None \<Longrightarrow>
   populate K a r sp (calcKey (BALANCE_KEY K) a) = Some (big_Bytes (Balance r))"
  by (auto simp add: populate_def store_if_absent_def split: option.splits)

lemma populate_requested:
  assumes "distinct_tags K" and "action \<noteq> GET_STATE"
    and "sp (scratchpadKey K action a key) = None"
  shows "populate K a (fetched K U a) sp (scratchpadKey K action a key)
           = Some (cached_upstream K U action a key)"
  using assms(2,3) populate_entries [OF assms(1), of a "fetched K U a" sp]
  by (cases action) (simp_all add: fetched_def)

subsection \<open>Accounts, balances and nonces\<close>

lemma distinct_tags_pad32: "distinct_tags pad32"
  by code_simp

lemma upstream0_quiet: "\<forall>k\<ge>N. \<not> transport_fails upstream0 k"
  by (simp add: upstream0_def)

lemma fresh_NewOverlayStateDB: "lookup_chain (state (NewOverlayStateDB b)) k = None"
  by (simp add: NewOverlayStateDB_def NewOverlayState_def Derive_def)

lemma batchSize_NewOverlayStateDB: "batchSize (getRootState (state (NewOverlayStateDB b))) = b"
  by (simp add: NewOverlayStateDB_def NewOverlayState_def Derive_def)

lemma lookup_chain_above_root:
  "list_all (\<lambda>s. scratchPad s k = None) (butlast (layers st))
   \<Longrightarrow> lookup_chain st k = scratchPad (getRootState st) k"
proof (induction st)
  case (Root s)
  show ?case by simp
next
  case (Derived s p)
  have "layers p \<noteq> []" by (cases p) simp_all
  with Derived show ?case by simp
qed

lemma no_local_writes_lookup:
  assumes "no_local_writes K st a"
  shows "lookup_chain st (calcKey (BALANCE_KEY K) a) = scratchPad (getRootState st) (calcKey (BALANCE_KEY K) a)"
    and "lookup_chain st (calcKey (NONCE_KEY K) a) = scratchPad (getRootState st) (calcKey (NONCE_KEY K) a)"
    and "lookup_chain st (calcKey (CODE_KEY K) a) = scratchPad (getRootState st) (calcKey (CODE_KEY K) a)"
    and "lookup_chain st (calcKey (CODEHASH_KEY K) a) = scratchPad (getRootState st) (calcKey (CODEHASH_KEY K) a)"
  using assms
  by (auto simp add: no_local_writes_def list_all_iff intro!: lookup_chain_above_root)

lemma state_get_hit:
  "lookup_chain (state db) (scratchpadKey K action a key) = Some v
   \<Longrightarrow> state_get K U db a action key = Some (Inr v, db)"
  by (simp add: state_get_def get_hit)

lemma state_get_cached:
  assumes "no_local_writes K (state db) a" and "account_cached K U (state db) a"
    and "action \<noteq> GET_STATE"
  shows "state_get K U db a action key = Some (Inr (cached_upstream K U action a key), db)"
proof -
  have "lookup_chain (state db) (scratchpadKey K action a key) = Some (cached_upstream K U action a key)"
    using assms(2,3) no_local_writes_lookup [OF assms(1)]
    by (cases action) (simp_all add: account_cached_def)
  then show ?thesis by (rule state_get_hit)
qed

lemma state_get_fresh:
  assumes "distinct_tags K"
    and "lookup_chain (state db) (calcKey (BALANCE_KEY K) a) = None"
    and "lookup_chain (state db) (calcKey (NONCE_KEY K) a) = None"
    and "lookup_chain (state db) (calcKey (CODE_KEY K) a) = None"
    and "lookup_chain (state db) (calcKey (CODEHASH_KEY K) a) = None"
    and "0 < batchSize (getRootState (state db))" and "\<forall>k\<ge>N. \<not> transport_fails U k"
    and "action \<noteq> GET_STATE"
  shows "\<exists>db'. state_get K U db a action key = Some (Inr (cached_upstream K U action a key), db')
           \<and> account_cached K U (state db') a"
proof -
  let ?sp = "scratchPad (getRootState (state db))"
  have miss: "lookup_chain (state db) (scratchpadKey K action a key) = None"
    using assms(2-5,8) by (cases action) simp_all
  have root: "?sp (calcKey (BALANCE_KEY K) a) = None" "?sp (calcKey (NONCE_KEY K) a) = None"
    "?sp (calcKey (CODE_KEY K) a) = None" "?sp (calcKey (CODEHASH_KEY K) a) = None"
    using assms(2-5) by (simp_all add: lookup_chain_root)
  have req: "populate K a (fetched K U a) ?sp (scratchpadKey K action a key)
               = Some (cached_upstream K U action a key)"
    using assms(1,8) lookup_chain_root [OF miss] by (rule populate_requested)
  from get_miss_account [where c = "ec db", OF miss assms(8,6,7)]
  obtain c' where g: "get K U (state db) (ec db) a action key =
           Some (Inr (map_read (populate K a (fetched K U a) ?sp) (scratchpadKey K action a key)),
                 update_root (\<lambda>s. s\<lparr>accessedAccounts := insert a (accessedAccounts s),
                                     scratchPad := populate K a (fetched K U a) (scratchPad s)\<rparr>) (state db),
                 c')"
    by blast
  have "account_cached K U
          (update_root (\<lambda>s. s\<lparr>accessedAccounts := insert a (accessedAccounts s),
                                scratchPad := populate K a (fetched K U a) (scratchPad s)\<rparr>) (state db)) a"
    using root by (simp add: account_cached_def populate_entries [OF assms(1)] fetched_def)
  with g req show ?thesis
    by (simp add: state_get_def map_read_def)
qed

lemma state_get_account:
  assumes "distinct_tags K" and "no_local_writes K (state db) a"
    and "account_absent K (state db) a \<or> account_cached K U (state db) a"
    and "0 < batchSize (getRootState (state db))" and "\<forall>k\<ge>N. \<not> transport_fails U k"
    and "action \<noteq> GET_STATE"
  shows "\<exists>db'. state_get K U db a action key = Some (Inr (cached_upstream K U action a key), db')
           \<and> account_cached K U (state db') a"
  using assms(3)
proof
  assume "account_absent K (state db) a"
  then have l: "lookup_chain (state db) (calcKey (BALANCE_KEY K) a) = None"
    "lookup_chain (state db) (calcKey (NONCE_KEY K) a) = None"
    "lookup_chain (state db) (calcKey (CODE_KEY K) a) = None"
    "lookup_chain (state db) (calcKey (CODEHASH_KEY K) a) = None"
    using no_local_writes_lookup [OF assms(2)] by (simp_all add: account_absent_def)
  show ?thesis
    by (rule state_get_fresh [OF assms(1) l assms(4,5,6)])
next
  assume "account_cached K U (state db) a"
  with state_get_cached [OF assms(2) this assms(6)] show ?thesis by blast
qed

lemma no_local_writes_NewOverlayStateDB: "no_local_writes K (state (NewOverlayStateDB b)) a"
  by (simp add: no_local_writes_def NewOverlayStateDB_def NewOverlayState_def Derive_def)

lemma account_absent_NewOverlayStateDB: "account_absent K (state (NewOverlayStateDB b)) a"
  by (simp add: account_absent_def NewOverlayStateDB_def NewOverlayState_def Derive_def)

lemma sub_then_get:
  assumes "no_local_writes K (state db) a"
    and "scratchPad (getRootState (state db)) (calcKey (BALANCE_KEY K) a) = None
         \<or> scratchPad (getRootState (state db)) (calcKey (BALANCE_KEY K) a)
             = Some (big_Bytes (int (up_balance U a)))"
    and "0 < batchSize (getRootState (state db))" and "\<forall>k\<ge>N. \<not> transport_fails U k"
  shows "(\<exists>db1. SubBalance K U db a delta = Some (Inr (), db1))
       \<and> SubBalance_then_GetBalance K U db a delta = Some (Inr \<bar>int (up_balance U a) - delta\<bar>)"
proof -
  let ?k = "calcKey (BALANCE_KEY K) a"
  let ?sp = "scratchPad (getRootState (state db))"
  have chain: "lookup_chain (state db) (scratchpadKey K GET_BALANCE a zeroHash) = ?sp ?k"
    using no_local_writes_lookup(1) [OF assms(1)] by simp
  have "\<exists>st' c'. get K U (state db) (ec db) a GET_BALANCE zeroHash
      = Some (Inr (big_Bytes (int (up_balance U a))), st', c')"
    using assms(2)
  proof
    assume absent: "?sp ?k = None"
    then have miss: "lookup_chain (state db) (scratchpadKey K GET_BALANCE a zeroHash) = None"
      using chain by simp
    have "populate K a (fetched K U a) ?sp ?k = Some (big_Bytes (int (up_balance U a)))"
      using absent by (simp add: populate_balance_first fetched_def)
    with get_miss_account [where c = "ec db", OF miss _ assms(3,4)]
    show ?thesis
      by (auto simp add: map_read_def)
  next
    assume "?sp ?k = Some (big_Bytes (int (up_balance U a)))"
    then have "lookup_chain (state db) (scratchpadKey K GET_BALANCE a zeroHash)
        = Some (big_Bytes (int (up_balance U a)))"
      using chain by simp
    then show ?thesis
      by (blast dest: get_hit)
  qed
  then obtain st' c' where g: "get K U (state db) (ec db) a GET_BALANCE zeroHash
      = Some (Inr (big_Bytes (int (up_balance U a))), st', c')"
    by blast
  let ?db1 = "db\<lparr>state := st', ec := c'\<rparr>\<lparr>state := scratchPad_store ?k
                 (big_Bytes (big_SetBytes (big_Bytes (int (up_balance U a))) - delta)) st'\<rparr>"
  have sub: "SubBalance K U db a delta = Some (Inr (), ?db1)"
    using g by (simp add: SubBalance_def state_get_def)
  have "scratchPad (this (state ?db1)) (scratchpadKey K GET_BALANCE a zeroHash)
          = Some (big_Bytes (int (up_balance U a) - delta))"
    by (simp add: big_SetBytes_Bytes)
  then have "get K U (state ?db1) (ec ?db1) a GET_BALANCE zeroHash
          = Some (Inr (big_Bytes (int (up_balance U a) - delta)), state ?db1, ec ?db1)"
    by (rule get_hit_this)
  then have "GetBalance K U ?db1 a = Some (Inr \<bar>int (up_balance U a) - delta\<bar>, ?db1)"
    by (simp add: GetBalance_def state_get_def big_SetBytes_Bytes)
  with sub show ?thesis
    by (simp add: SubBalance_then_GetBalance_def)
qed

lemma root_balance_NewOverlayStateDB:
  "scratchPad (getRootState (state (NewOverlayStateDB b))) k = None \<or>
   scratchPad (getRootState (state (NewOverlayStateDB b))) k = Some v"
  by (simp add: NewOverlayStateDB_def NewOverlayState_def Derive_def)

lemma get_nonce_fresh:
  assumes "BALANCE_KEY K \<noteq> NONCE_KEY K"
    and "lookup_chain (state db) (calcKey (NONCE_KEY K) a) = None"
    and "0 < batchSize (getRootState (state db))" and "\<forall>k\<ge>N. \<not> transport_fails U k"
  shows "\<exists>db'. GetNonce K U db a
             = Some (Inr (big_Uint64 (big_SetBytes (nonce_Bytes (up_nonce U a)))), db')
          \<and> scratchPad (getRootState (state db')) (calcKey (NONCE_KEY K) a)
              = Some (nonce_Bytes (up_nonce U a))"
proof -
  let ?k = "calcKey (NONCE_KEY K) a"
  let ?sp = "scratchPad (getRootState (state db))"
  have miss: "lookup_chain (state db) (scratchpadKey K GET_NONCE a zeroHash) = None"
    using assms(2) by simp
  have p: "populate K a (fetched K U a) ?sp ?k = Some (nonce_Bytes (up_nonce U a))"
    using lookup_chain_root [OF assms(2)] assms(1)
    by (auto simp add: populate_def store_if_absent_def fetched_def split: option.splits)
  from get_miss_account [where c = "ec db", OF miss _ assms(3,4)]
  obtain c' where g: "get K U (state db) (ec db) a GET_NONCE zeroHash =
           Some (Inr (map_read (populate K a (fetched K U a) ?sp) ?k),
                 update_root (\<lambda>s. s\<lparr>accessedAccounts := insert a (accessedAccounts s),
                                     scratchPad := populate K a (fetched K U a) (scratchPad s)\<rparr>) (state db),
                 c')"
    by auto
  then show ?thesis
    using p by (simp add: GetNonce_def state_get_def map_read_def)
qed

subsection \<open>Ticks and attempts\<close>

lemma timeSlot_storage_quiet:
  assumes "0 < batchSize s" and "pending \<noteq> []"
    and "\<forall>k\<ge>length (calls c). \<not> transport_fails U k"
  shows "timeSlot_storage U s c pending =
           Some (Inr (map (\<lambda>r. r\<lparr>Value := up_storage U (Address r) (Key r)\<rparr>) pending),
                 s\<lparr>rpcCnt := rpcCnt s + 1\<rparr>,
                 c\<lparr>calls := calls c @ map getStorageAt_batch (chunks (nat (batchSize s)) pending)\<rparr>)"
proof -
  have "loadState_windows U (batchSize s) pending 0 (replicate (length pending) zeroHash) c =
    Some (Inr (map (\<lambda>r. up_storage U (Address r) (Key r)) pending),
          c\<lparr>calls := calls c @ map getStorageAt_batch (chunks (nat (batchSize s)) pending)\<rparr>)"
    using loadState_windows_quiet [OF assms(1,3), of "replicate (length pending) zeroHash" pending 0]
    by simp
  then have "loadStateBatchRPC U s c pending =
           Some (Inr (map (\<lambda>r. r\<lparr>Value := up_storage U (Address r) (Key r)\<rparr>) pending),
                 s\<lparr>rpcCnt := rpcCnt s + 1\<rparr>,
                 c\<lparr>calls := calls c @ map getStorageAt_batch (chunks (nat (batchSize s)) pending)\<rparr>)"
    by (simp add: loadStateBatchRPC_def fill_all)
  then show ?thesis
    using assms(2) by (subst timeSlot_storage_def, subst timeSlot_storage_retry.simps) simp
qed

lemma length_pending250: "length pending250 = 250"
  by (simp add: pending250_def)

lemma be_nat_zeros: "be_nat (replicate n (CHR 0x00) @ b) = be_nat b"
proof -
  have "foldl (\<lambda>acc c. acc * 256 + of_char c) (0::nat) (replicate n (CHR 0x00)) = 0"
    by (induction n) simp_all
  then show ?thesis
    by (simp add: be_nat_def)
qed

lemma be_nat_BytesToHash: "length b \<le> 32 \<Longrightarrow> be_nat (BytesToHash b) = be_nat b"
  by (simp add: BytesToHash_def be_nat_zeros)

lemma length_be_bytes_byte: "i < 256 \<Longrightarrow> length (be_bytes i) \<le> 1"
  by (cases "i = 0") (simp_all add: be_bytes_0 be_bytes_pos)

lemma distinct_pending250: "distinct (map Key pending250)"
proof -
  have "inj_on (\<lambda>i. BytesToHash (be_bytes i)) {0..<250}"
  proof (rule inj_on_inverseI [where g = be_nat])
    fix i :: nat
    assume "i \<in> {0..<250}"
    then have "length (be_bytes i) \<le> 32"
      using length_be_bytes_byte [of i] by simp
    then show "be_nat (BytesToHash (be_bytes i)) = i"
      by (simp add: be_nat_BytesToHash be_nat_be_bytes)
  qed
  then show ?thesis
    by (simp add: pending250_def distinct_map comp_def)
qed

lemma account_attempts_down:
  "account_attempts pad32 upstream_down (getRootState (NewOverlayState 100))
      \<lparr>calls = [], slept = []\<rparr> [addr_a] = Some (True, 6, [100, 100, 100, 100, 100])"
  by (simp add: account_attempts_def loadAccountBatchRPC_def NewOverlayState_def
      loadAccount_windows_fail_retry loadAccount_windows_fail_last length_batchElem
      upstream_down_def upstream0_def Sleep_def)

lemma storage_attempts_blip:
  "storage_attempts upstream_blip (getRootState (NewOverlayState 100))
      \<lparr>calls = [], slept = []\<rparr> [\<lparr>Address = addr_a, Key = slot_k, Value = zeroHash\<rparr>]
     = Some (True, 1, [])"
  by (simp add: storage_attempts_def loadStateBatchRPC_def NewOverlayState_def
      loadState_windows_fail upstream_blip_def upstream0_def)

section \<open>The overlay stack: reads\<close>

text \<open>
  Claim C1 (shadow law), as the code has it, for the keys that are read through
  \<open>get\<close>: balance, nonce, code, code hash and storage slot. For every chain of layers
  and every such key \<open>k\<close>, a read at the active layer returns the value of the deepest
  layer whose scratchpad holds \<open>k\<close>, the root included, and changes nothing. When no
  layer holds \<open>k\<close>, the root's batch size is positive and the transport fails only
  finitely often, the read returns the upstream value at the pinned block in the
  encoding the root caches it in, the root scratchpad holds it under \<open>k\<close> afterwards, and
  the layers above the root are untouched.
\<close>

theorem shadow_law:
  assumes "distinct_tags K"
  shows "(\<forall>v. lookup_chain st (scratchpadKey K action account key) = Some v
            \<longrightarrow> get K U st c account action key = Some (Inr v, st, c))
    \<and> (lookup_chain st (scratchpadKey K action account key) = None
         \<and> 0 < batchSize (getRootState st) \<and> (\<forall>k\<ge>N. \<not> transport_fails U k)
        \<longrightarrow> (\<exists>st' c'. get K U st c account action key
                         = Some (Inr (cached_upstream K U action account key), st', c')
               \<and> scratchPad (getRootState st') (scratchpadKey K action account key)
                   = Some (cached_upstream K U action account key)
               \<and> butlast (layers st') = butlast (layers st)))"
proof (intro conjI allI impI)
  fix v
  assume "lookup_chain st (scratchpadKey K action account key) = Some v"
  then show "get K U st c account action key = Some (Inr v, st, c)"
    by (rule get_hit)
next
  assume a: "lookup_chain st (scratchpadKey K action account key) = None
         \<and> 0 < batchSize (getRootState st) \<and> (\<forall>k\<ge>N. \<not> transport_fails U k)"
  then have miss: "lookup_chain st (scratchpadKey K action account key) = None"
    and b: "0 < batchSize (getRootState st)" and q: "\<forall>k\<ge>N. \<not> transport_fails U k"
    by simp_all
  have root: "scratchPad (getRootState st) (scratchpadKey K action account key) = None"
    using miss by (rule lookup_chain_root)
  show "\<exists>st' c'. get K U st c account action key
                         = Some (Inr (cached_upstream K U action account key), st', c')
               \<and> scratchPad (getRootState st') (scratchpadKey K action account key)
                   = Some (cached_upstream K U action account key)
               \<and> butlast (layers st') = butlast (layers st)"
  proof (cases "action = GET_STATE")
    case True
    from get_miss_state [where c = c, OF miss [unfolded True scratchpadKey.simps] b q]
    show ?thesis
      unfolding True by auto
  next
    case False
    have p: "populate K account (fetched K U account) (scratchPad (getRootState st))
               (scratchpadKey K action account key) = Some (cached_upstream K U action account key)"
      using assms False root by (rule populate_requested)
    from get_miss_account [where c = c, OF miss False b q]
    show ?thesis
      using p by (auto simp add: map_read_def)
  qed
qed

theorem shadow_law_witness:
  "distinct_tags pad32
   \<and> lookup_chain (state (SetBalance pad32 (NewOverlayStateDB 100) addr_a 200))
        (scratchpadKey pad32 GET_BALANCE addr_a zeroHash) = Some (big_Bytes 200)
   \<and> get pad32 upstream0 (state (SetBalance pad32 (NewOverlayStateDB 100) addr_a 200))
        (ec (NewOverlayStateDB 100)) addr_a GET_BALANCE zeroHash
       = Some (Inr (big_Bytes 200), state (SetBalance pad32 (NewOverlayStateDB 100) addr_a 200),
               ec (NewOverlayStateDB 100))
   \<and> lookup_chain (state (NewOverlayStateDB 100)) (scratchpadKey pad32 GET_BALANCE addr_a zeroHash) = None
   \<and> (\<exists>st' c'. get pad32 upstream0 (state (NewOverlayStateDB 100)) (ec (NewOverlayStateDB 100))
                  addr_a GET_BALANCE zeroHash = Some (Inr (big_Bytes 100), st', c')
         \<and> scratchPad (getRootState st') (scratchpadKey pad32 GET_BALANCE addr_a zeroHash)
             = Some (big_Bytes 100))"
proof -
  let ?st1 = "state (SetBalance pad32 (NewOverlayStateDB 100) addr_a 200)"
  let ?st0 = "state (NewOverlayStateDB 100)"
  let ?c0 = "ec (NewOverlayStateDB 100)"
  have hit: "lookup_chain ?st1 (scratchpadKey pad32 GET_BALANCE addr_a zeroHash) = Some (big_Bytes 200)"
    by (simp add: SetBalance_def NewOverlayStateDB_def Derive_def scratchPad_store_def)
  have miss: "lookup_chain ?st0 (scratchpadKey pad32 GET_BALANCE addr_a zeroHash) = None"
    by (rule fresh_NewOverlayStateDB)
  have b: "0 < batchSize (getRootState ?st0)"
    by (simp add: batchSize_NewOverlayStateDB)
  have up: "cached_upstream pad32 upstream0 GET_BALANCE addr_a zeroHash = big_Bytes 100"
    by (simp add: upstream0_def)
  from shadow_law [OF distinct_tags_pad32, of ?st1 GET_BALANCE "addr_a" zeroHash upstream0 ?c0 0] hit
  have "get pad32 upstream0 ?st1 ?c0 addr_a GET_BALANCE zeroHash = Some (Inr (big_Bytes 200), ?st1, ?c0)"
    by blast
  moreover
  from shadow_law [OF distinct_tags_pad32, of ?st0 GET_BALANCE "addr_a" zeroHash upstream0 ?c0 0]
    miss b upstream0_quiet [of 0]
  have "\<exists>st' c'. get pad32 upstream0 ?st0 ?c0 addr_a GET_BALANCE zeroHash
           = Some (Inr (big_Bytes 100), st', c')
         \<and> scratchPad (getRootState st') (scratchpadKey pad32 GET_BALANCE addr_a zeroHash)
             = Some (big_Bytes 100)"
    unfolding up by blast
  ultimately show ?thesis
    using distinct_tags_pad32 hit miss by blast
qed

text \<open>
  The claim as written includes the suicide flag. The flag is read by \<open>HasSuicided\<close>,
  which looks at the active layer only: after \<open>Suicide(a)\<close> and a \<open>Snapshot()\<close> the
  deepest layer holding the flag's key holds \<open>0x01\<close>, and the read at the top returns
  false.
\<close>

theorem shadow_suicide_counterexample:
  "lookup_chain (state (snd (Snapshot (snd (Suicide pad32 (NewOverlayStateDB 100) addr_a)))))
      (calcKey (SUICIDE_KEY pad32) addr_a) = Some [CHR 0x01]
   \<and> \<not> HasSuicided pad32 (snd (Snapshot (snd (Suicide pad32 (NewOverlayStateDB 100) addr_a)))) addr_a"
  by (simp add: Snapshot_def Suicide_def HasSuicided_def NewOverlayStateDB_def Derive_def
      scratchPad_store_def)

text \<open>
  Claim C4 (account triple coherence). Let \<open>a\<close> be an address the facade has not written
  to: no layer above the root holds one of its four account keys, and the root holds
  none of them or, from an earlier read, all four as fetched. With a positive batch
  size at the root, a transport that fails only finitely often and no collision among
  the four account tags, each of \<open>GetBalance\<close>, \<open>GetNonce\<close>, \<open>GetCode\<close> and \<open>GetCodeHash\<close>
  returns, and afterwards the root scratchpad holds all four entries of \<open>a\<close>, the code
  hash entry being \<open>keccak256(code)\<close>, or thirty-two zero bytes when the fetched code is
  empty.
\<close>

theorem account_triple_coherence:
  assumes "distinct_tags K" and "no_local_writes K (state db) a"
    and "account_absent K (state db) a \<or> account_cached K U (state db) a"
    and "0 < batchSize (getRootState (state db))" and "\<forall>k\<ge>N. \<not> transport_fails U k"
  shows "(\<exists>r db'. GetBalance K U db a = Some (Inr r, db') \<and> account_cached K U (state db') a)
       \<and> (\<exists>r db'. GetNonce K U db a = Some (Inr r, db') \<and> account_cached K U (state db') a)
       \<and> (\<exists>r db'. GetCode K U db a = Some (Inr r, db') \<and> account_cached K U (state db') a)
       \<and> (\<exists>r db'. GetCodeHash K U db a = Some (Inr r, db') \<and> account_cached K U (state db') a)"
proof (intro conjI)
  from state_get_account [OF assms, of GET_BALANCE zeroHash]
  show "\<exists>r db'. GetBalance K U db a = Some (Inr r, db') \<and> account_cached K U (state db') a"
    by (auto simp add: GetBalance_def)
  from state_get_account [OF assms, of GET_NONCE zeroHash]
  show "\<exists>r db'. GetNonce K U db a = Some (Inr r, db') \<and> account_cached K U (state db') a"
    by (auto simp add: GetNonce_def)
  from state_get_account [OF assms, of GET_CODE zeroHash]
  show "\<exists>r db'. GetCode K U db a = Some (Inr r, db') \<and> account_cached K U (state db') a"
    by (auto simp add: GetCode_def)
  from state_get_account [OF assms, of GET_CODEHASH zeroHash]
  show "\<exists>r db'. GetCodeHash K U db a = Some (Inr r, db') \<and> account_cached K U (state db') a"
    by (auto simp add: GetCodeHash_def)
qed

theorem account_triple_coherence_witness:
  "distinct_tags pad32
   \<and> no_local_writes pad32 (state (NewOverlayStateDB 100)) addr_a
   \<and> account_absent pad32 (state (NewOverlayStateDB 100)) addr_a
   \<and> 0 < batchSize (getRootState (state (NewOverlayStateDB 100)))
   \<and> (\<exists>r db'. GetBalance pad32 upstream0 (NewOverlayStateDB 100) addr_a = Some (Inr r, db')
         \<and> account_cached pad32 upstream0 (state db') addr_a)
   \<and> (\<exists>r db'. GetCodeHash pad32 upstream0 (NewOverlayStateDB 100) addr_a = Some (Inr r, db')
         \<and> scratchPad (getRootState (state db')) (calcKey (CODEHASH_KEY pad32) addr_a)
             = Some (pad32 [CHR 0x60]))"
proof -
  have b: "0 < batchSize (getRootState (state (NewOverlayStateDB 100)))"
    by (simp add: batchSize_NewOverlayStateDB)
  have ab: "account_absent pad32 (state (NewOverlayStateDB 100)) addr_a
      \<or> account_cached pad32 upstream0 (state (NewOverlayStateDB 100)) addr_a"
    by (simp add: account_absent_NewOverlayStateDB)
  note coh = account_triple_coherence [where K = pad32 and db = "NewOverlayStateDB 100"
      and a = "addr_a" and U = upstream0 and N = 0,
      OF distinct_tags_pad32 no_local_writes_NewOverlayStateDB ab b upstream0_quiet]
  have "\<exists>r db'. GetCodeHash pad32 upstream0 (NewOverlayStateDB 100) addr_a = Some (Inr r, db')
         \<and> scratchPad (getRootState (state db')) (calcKey (CODEHASH_KEY pad32) addr_a)
             = Some (pad32 [CHR 0x60])"
    using coh by (auto simp add: account_cached_def upstream0_def)
  with coh b distinct_tags_pad32 show ?thesis
    by (simp add: no_local_writes_NewOverlayStateDB account_absent_NewOverlayStateDB)
qed

section \<open>Balances and nonces\<close>

text \<open>
  Claim C9 (\<open>SubBalance\<close>), as the code has it. For an address \<open>a\<close> the facade has not
  written to, whose balance the root does not hold or holds as fetched (root batch size
  positive, transport failing only finitely often), and every \<open>delta\<close>:
  \<open>SubBalance(a, delta)\<close> returns without a panic, and a following \<open>GetBalance(a)\<close>
  returns the magnitude of the upstream balance minus \<open>delta\<close>, which is the upstream
  balance minus \<open>delta\<close> whenever \<open>delta\<close> does not exceed the upstream balance.
\<close>

theorem SubBalance_magnitude:
  assumes "no_local_writes K (state db) a"
    and "scratchPad (getRootState (state db)) (calcKey (BALANCE_KEY K) a) = None
         \<or> scratchPad (getRootState (state db)) (calcKey (BALANCE_KEY K) a)
             = Some (big_Bytes (int (up_balance U a)))"
    and "0 < batchSize (getRootState (state db))" and "\<forall>k\<ge>N. \<not> transport_fails U k"
  shows "(\<exists>db1. SubBalance K U db a delta = Some (Inr (), db1))
       \<and> SubBalance_then_GetBalance K U db a delta = Some (Inr \<bar>int (up_balance U a) - delta\<bar>)
       \<and> (delta \<le> int (up_balance U a) \<longrightarrow>
            SubBalance_then_GetBalance K U db a delta = Some (Inr (int (up_balance U a) - delta)))"
  using sub_then_get [OF assms, of delta] by simp

theorem SubBalance_magnitude_witness:
  "no_local_writes pad32 (state (NewOverlayStateDB 100)) addr_a
   \<and> scratchPad (getRootState (state (NewOverlayStateDB 100))) (calcKey (BALANCE_KEY pad32) addr_a) = None
   \<and> 0 < batchSize (getRootState (state (NewOverlayStateDB 100)))
   \<and> (30::int) \<le> int (up_balance upstream0 addr_a)
   \<and> (\<exists>db1. SubBalance pad32 upstream0 (NewOverlayStateDB 100) addr_a 30 = Some (Inr (), db1))
   \<and> SubBalance_then_GetBalance pad32 upstream0 (NewOverlayStateDB 100) addr_a 30 = Some (Inr 70)"
proof -
  have b: "0 < batchSize (getRootState (state (NewOverlayStateDB 100)))"
    by (simp add: batchSize_NewOverlayStateDB)
  have u: "int (up_balance upstream0 addr_a) = 100"
    by (simp add: upstream0_def)
  have r: "scratchPad (getRootState (state (NewOverlayStateDB 100))) (calcKey (BALANCE_KEY pad32) addr_a) = None"
    by (simp add: NewOverlayStateDB_def NewOverlayState_def Derive_def)
  from SubBalance_magnitude [where K = pad32 and db = "NewOverlayStateDB 100" and a = "addr_a"
      and U = upstream0 and N = 0 and delta = 30,
      OF no_local_writes_NewOverlayStateDB root_balance_NewOverlayStateDB b upstream0_quiet]
  show ?thesis
    using b r unfolding u by (simp add: no_local_writes_NewOverlayStateDB)
qed

text \<open>
  The claim as written promises the upstream balance minus \<open>delta\<close> for every \<open>delta\<close>.
  The scratchpad stores \<^verbatim>\<open>post.Bytes()\<close>, the magnitude: with an upstream balance of
  100 and \<open>delta = 150\<close> the following \<open>GetBalance\<close> returns 50, and the difference
  is -50.
\<close>

theorem SubBalance_overdraft_counterexample:
  "SubBalance_then_GetBalance pad32 upstream0 (NewOverlayStateDB 100) addr_a 150 = Some (Inr 50)
   \<and> int (up_balance upstream0 addr_a) - 150 = - 50"
proof -
  have b: "0 < batchSize (getRootState (state (NewOverlayStateDB 100)))"
    by (simp add: batchSize_NewOverlayStateDB)
  have u: "int (up_balance upstream0 addr_a) = 100"
    by (simp add: upstream0_def)
  from sub_then_get [where K = pad32 and db = "NewOverlayStateDB 100" and a = "addr_a"
      and U = upstream0 and N = 0 and delta = 150,
      OF no_local_writes_NewOverlayStateDB root_balance_NewOverlayStateDB b upstream0_quiet]
  show ?thesis
    unfolding u by simp
qed

text \<open>
  Claim C10 (nonce round-trip). For every address \<open>a\<close> and every nonce \<open>v < 2^63\<close>,
  \<open>SetNonce(a, v)\<close> followed by \<open>GetNonce(a)\<close> in the same layer returns \<open>v\<close> and leaves
  the state as \<open>SetNonce\<close> left it; the stored bytes are
  \<^verbatim>\<open>big.NewInt(int64(v)).Bytes()\<close>. A nonce fetched from upstream goes through the same
  conversion: when no layer holds the nonce key of \<open>a\<close> (balance and nonce tags
  different, root batch size positive, transport failing only finitely often),
  \<open>GetNonce(a)\<close> caches \<^verbatim>\<open>big.NewInt(int64(nonce)).Bytes()\<close> in the root and returns
  its decoding.
\<close>

theorem nonce_roundtrip_below_2_63:
  assumes "unat v < 2 ^ 63"
  shows "GetNonce K U (SetNonce K db a v) a = Some (Inr v, SetNonce K db a v)
       \<and> scratchPad (this (state (SetNonce K db a v))) (calcKey (NONCE_KEY K) a)
           = Some (big_Bytes (sint v))
       \<and> (BALANCE_KEY K \<noteq> NONCE_KEY K
            \<and> lookup_chain (state db) (calcKey (NONCE_KEY K) a) = None
            \<and> 0 < batchSize (getRootState (state db)) \<and> (\<forall>k\<ge>N. \<not> transport_fails U k)
          \<longrightarrow> (\<exists>db'. GetNonce K U db a
                         = Some (Inr (big_Uint64 (big_SetBytes (big_Bytes (sint (up_nonce U a))))), db')
                  \<and> scratchPad (getRootState (state db')) (calcKey (NONCE_KEY K) a)
                      = Some (big_Bytes (sint (up_nonce U a)))))"
proof (intro conjI impI)
  let ?db = "SetNonce K db a v"
  show stored: "scratchPad (this (state ?db)) (calcKey (NONCE_KEY K) a) = Some (big_Bytes (sint v))"
    by (simp add: SetNonce_def nonce_Bytes_def)
  then have "scratchPad (this (state ?db)) (scratchpadKey K GET_NONCE a zeroHash)
      = Some (nonce_Bytes v)"
    by (simp add: nonce_Bytes_def)
  then have "get K U (state ?db) (ec ?db) a GET_NONCE zeroHash
      = Some (Inr (nonce_Bytes v), state ?db, ec ?db)"
    by (rule get_hit_this)
  then show "GetNonce K U ?db a = Some (Inr v, ?db)"
    by (simp add: GetNonce_def state_get_def nonce_roundtrip [OF assms])
next
  assume "BALANCE_KEY K \<noteq> NONCE_KEY K
            \<and> lookup_chain (state db) (calcKey (NONCE_KEY K) a) = None
            \<and> 0 < batchSize (getRootState (state db)) \<and> (\<forall>k\<ge>N. \<not> transport_fails U k)"
  then show "\<exists>db'. GetNonce K U db a
                         = Some (Inr (big_Uint64 (big_SetBytes (big_Bytes (sint (up_nonce U a))))), db')
                  \<and> scratchPad (getRootState (state db')) (calcKey (NONCE_KEY K) a)
                      = Some (big_Bytes (sint (up_nonce U a)))"
    using get_nonce_fresh [of K db a N U] by (simp add: nonce_Bytes_def)
qed

theorem nonce_roundtrip_below_2_63_witness:
  "unat (7 :: 64 word) < 2 ^ 63
   \<and> GetNonce pad32 upstream0 (SetNonce pad32 (NewOverlayStateDB 100) addr_a 7) addr_a
       = Some (Inr 7, SetNonce pad32 (NewOverlayStateDB 100) addr_a 7)
   \<and> BALANCE_KEY pad32 \<noteq> NONCE_KEY pad32
   \<and> lookup_chain (state (NewOverlayStateDB 100)) (calcKey (NONCE_KEY pad32) addr_a) = None
   \<and> 0 < batchSize (getRootState (state (NewOverlayStateDB 100)))
   \<and> (\<exists>db'. GetNonce pad32 upstream0 (NewOverlayStateDB 100) addr_a
               = Some (Inr (big_Uint64 (big_SetBytes (big_Bytes (sint (up_nonce upstream0 addr_a))))), db'))"
proof -
  have v: "unat (7 :: 64 word) < 2 ^ 63" by simp
  have b: "0 < batchSize (getRootState (state (NewOverlayStateDB 100)))"
    by (simp add: batchSize_NewOverlayStateDB)
  have t: "BALANCE_KEY pad32 \<noteq> NONCE_KEY pad32"
    using distinct_tags_pad32 by (simp add: distinct_tags_def)
  from nonce_roundtrip_below_2_63 [OF v, where K = pad32 and db = "NewOverlayStateDB 100"
      and a = "addr_a" and U = upstream0 and N = 0]
  show ?thesis
    using v b t upstream0_quiet [of 0] by (auto simp add: fresh_NewOverlayStateDB)
qed

section \<open>The fetchers\<close>

text \<open>
  Claim C5 (batching bound and request counter), as the code has it. When a storage
  tick drains \<open>N > 0\<close> pending reads, the root's batch size is \<open>B > 0\<close> and the transport
  does not fail: the tick hands the windows of \<open>B\<close> requests to the client one after
  the other, \<open>\<lceil>N/B\<rceil> = (N + B - 1) div B\<close> batches of \<^verbatim>\<open>eth_getStorageAt\<close> in all, every
  read is answered with the upstream value of its slot, and \<^verbatim>\<open>rpcCnt\<close>, which
  \<open>RPCRequestCount\<close> returns, increases by one: it is incremented once per call of
  \<^verbatim>\<open>loadStateBatchRPC\<close>, not once per batch.
\<close>

theorem batching_bound:
  assumes "0 < batchSize s" and "pending \<noteq> []"
    and "\<forall>k\<ge>length (calls c). \<not> transport_fails U k"
  shows "timeSlot_storage U s c pending =
           Some (Inr (map (\<lambda>r. r\<lparr>Value := up_storage U (Address r) (Key r)\<rparr>) pending),
                 s\<lparr>rpcCnt := rpcCnt s + 1\<rparr>,
                 c\<lparr>calls := calls c @ map getStorageAt_batch (chunks (nat (batchSize s)) pending)\<rparr>)
       \<and> length (chunks (nat (batchSize s)) pending)
           = (length pending + nat (batchSize s) - 1) div nat (batchSize s)
       \<and> tick_cost U s c pending
           = Some (1, (length pending + nat (batchSize s) - 1) div nat (batchSize s))"
proof -
  have n: "0 < nat (batchSize s)" using assms(1) by simp
  show ?thesis
    using timeSlot_storage_quiet [OF assms] length_chunks [OF n, of pending]
    by (simp add: tick_cost_def)
qed

theorem batching_bound_witness:
  "0 < batchSize (getRootState (NewOverlayState 100)) \<and> pending250 \<noteq> []
   \<and> length pending250 = 250
   \<and> tick_cost upstream0 (getRootState (NewOverlayState 100)) \<lparr>calls = [], slept = []\<rparr> pending250
       = Some (1, 3)
   \<and> (\<exists>s1 c1. timeSlot_storage upstream0 (getRootState (NewOverlayState 100))
                  \<lparr>calls = [], slept = []\<rparr> pending250
         = Some (Inr (map (\<lambda>r. r\<lparr>Value := up_storage upstream0 (Address r) (Key r)\<rparr>) pending250),
                 s1, c1))"
proof -
  have b: "0 < batchSize (getRootState (NewOverlayState 100))"
    and b100: "batchSize (getRootState (NewOverlayState 100)) = 100"
    by (simp_all add: NewOverlayState_def)
  have ne: "pending250 \<noteq> []"
    using length_pending250 by auto
  from batching_bound [where U = upstream0 and c = "\<lparr>calls = [], slept = []\<rparr>",
      OF b ne upstream0_quiet]
  show ?thesis
    using b ne by (simp add: length_pending250 b100)
qed

text \<open>
  The claim as written has the counter increase by \<open>\<lceil>N/B\<rceil>\<close>. For 250 reads and
  \<open>B = 100\<close> the tick issues three batches and the counter increases by one.
\<close>

theorem batching_counter_counterexample:
  "length pending250 = 250 \<and> distinct (map Key pending250)
   \<and> batchSize (getRootState (NewOverlayState 100)) = 100
   \<and> tick_cost upstream0 (getRootState (NewOverlayState 100)) \<lparr>calls = [], slept = []\<rparr> pending250
       = Some (1, 3)"
proof -
  have b: "0 < batchSize (getRootState (NewOverlayState 100))"
    and b100: "batchSize (getRootState (NewOverlayState 100)) = 100"
    by (simp_all add: NewOverlayState_def)
  have ne: "pending250 \<noteq> []"
    using length_pending250 by auto
  have n: "0 < nat (batchSize (getRootState (NewOverlayState 100)))" using b by simp
  from timeSlot_storage_quiet [where U = upstream0 and c = "\<lparr>calls = [], slept = []\<rparr>",
      OF b ne upstream0_quiet] length_chunks [OF n, of pending250]
  show ?thesis
    by (simp add: tick_cost_def length_pending250 b100 distinct_pending250)
qed

text \<open>
  Claim C6 (retry policy of the fetchers), as the code has it, for a positive batch
  size. \<^verbatim>\<open>loadAccountBatchRPC\<close> always returns. It returns the transport error exactly
  when the sixth transport call of this invocation fails (the error counter is shared
  by all windows), having slept 100 ms after each of the first five failures;
  otherwise at most five of its calls failed, it slept 100 ms after each of them, and
  it returns the upstream nonce, balance and code of every account with the derived
  code hash. \<^verbatim>\<open>loadStateBatchRPC\<close> always returns and never sleeps: it returns the
  transport error after the first failed call, and the filled requests when no call
  failed.
\<close>

theorem fetcher_retry_policy:
  assumes "0 < batchSize s"
  shows "(\<exists>r c'. loadAccountBatchRPC K U s c accounts =
            Some (r, s\<lparr>accessedAccounts := accessedAccounts s \<union> set accounts\<rparr>, c')
     \<and> (case r of
          Inl e \<Rightarrow> e = TransportError \<and> length (calls c) < length (calls c')
                   \<and> transport_fails U (length (calls c') - 1)
                   \<and> failures U (length (calls c)) (length (calls c')) = 6
                   \<and> slept c' = slept c @ replicate 5 100
        | Inr res \<Rightarrow> failures U (length (calls c)) (length (calls c')) \<le> 5
                   \<and> slept c' = slept c @ replicate (failures U (length (calls c)) (length (calls c'))) 100
                   \<and> length (calls c) \<le> length (calls c')
                   \<and> res = map (fetched K U) accounts))
   \<and> (\<exists>r c'. loadStateBatchRPC U s c reqs = Some (r, s\<lparr>rpcCnt := rpcCnt s + 1\<rparr>, c')
     \<and> slept c' = slept c
     \<and> (case r of
          Inl e \<Rightarrow> e = TransportError \<and> length (calls c) < length (calls c')
                   \<and> transport_fails U (length (calls c') - 1)
                   \<and> failures U (length (calls c)) (length (calls c')) = 1
        | Inr rs \<Rightarrow> failures U (length (calls c)) (length (calls c')) = 0
                   \<and> length (calls c) \<le> length (calls c')
                   \<and> rs = map (\<lambda>r. r\<lparr>Value := up_storage U (Address r) (Key r)\<rparr>) reqs))"
  using loadAccountBatchRPC_total [OF assms, of K U c accounts]
    loadStateBatchRPC_total [OF assms, of U c reqs]
  by blast

theorem fetcher_retry_policy_witness:
  "0 < batchSize (getRootState (NewOverlayState 100))
   \<and> account_attempts pad32 upstream_down (getRootState (NewOverlayState 100))
        \<lparr>calls = [], slept = []\<rparr> [addr_a] = Some (True, 6, [100, 100, 100, 100, 100])
   \<and> failures upstream_down 0 6 = 6
   \<and> storage_attempts upstream_blip (getRootState (NewOverlayState 100))
        \<lparr>calls = [], slept = []\<rparr> [\<lparr>Address = addr_a, Key = slot_k, Value = zeroHash\<rparr>]
       = Some (True, 1, [])
   \<and> failures upstream_blip 0 1 = 1"
proof -
  have b: "0 < batchSize (getRootState (NewOverlayState 100))"
    by (simp add: NewOverlayState_def)
  from fetcher_retry_policy [OF b, where K = pad32 and U = upstream_down
      and c = "\<lparr>calls = [], slept = []\<rparr>" and accounts = "[addr_a]" and reqs = "[]"]
  obtain r c' where l: "loadAccountBatchRPC pad32 upstream_down (getRootState (NewOverlayState 100))
        \<lparr>calls = [], slept = []\<rparr> [addr_a] = Some (r,
           (getRootState (NewOverlayState 100))\<lparr>accessedAccounts :=
              accessedAccounts (getRootState (NewOverlayState 100)) \<union> set [addr_a]\<rparr>, c')"
    and r: "case r of
          Inl e \<Rightarrow> e = TransportError \<and> length (calls \<lparr>calls = [], slept = []\<rparr>) < length (calls c')
                   \<and> transport_fails upstream_down (length (calls c') - 1)
                   \<and> failures upstream_down (length (calls \<lparr>calls = [], slept = []\<rparr>)) (length (calls c')) = 6
                   \<and> slept c' = slept \<lparr>calls = [], slept = []\<rparr> @ replicate 5 100
        | Inr res \<Rightarrow> failures upstream_down (length (calls \<lparr>calls = [], slept = []\<rparr>)) (length (calls c')) \<le> 5
                   \<and> slept c' = slept \<lparr>calls = [], slept = []\<rparr>
                        @ replicate (failures upstream_down (length (calls \<lparr>calls = [], slept = []\<rparr>)) (length (calls c'))) 100
                   \<and> length (calls \<lparr>calls = [], slept = []\<rparr>) \<le> length (calls c')
                   \<and> res = map (fetched pad32 upstream_down) [addr_a]"
    by blast
  from l account_attempts_down have "isl r" "length (calls c') = 6"
    by (simp_all add: account_attempts_def)
  with r have "failures upstream_down 0 6 = 6"
    by (cases r) simp_all
  moreover have "failures upstream_blip 0 1 = 1"
    by (simp add: failures_def upstream_blip_def)
  ultimately show ?thesis
    using b account_attempts_down storage_attempts_blip by simp
qed

text \<open>
  The claim as written allows five attempts to both fetchers. Behind a transport that
  always fails, the account fetcher makes six calls for one window, with five sleeps of
  100 ms in between, before it gives up; behind a transport whose first call only
  fails, the slot fetcher returns the error after that one call, without a sleep and
  without the retry that would have succeeded.
\<close>

theorem fetcher_retry_counterexample:
  "account_attempts pad32 upstream_down (getRootState (NewOverlayState 100))
      \<lparr>calls = [], slept = []\<rparr> [addr_a] = Some (True, 6, [100, 100, 100, 100, 100])
   \<and> storage_attempts upstream_blip (getRootState (NewOverlayState 100))
      \<lparr>calls = [], slept = []\<rparr> [\<lparr>Address = addr_a, Key = slot_k, Value = zeroHash\<rparr>]
     = Some (True, 1, [])"
  using account_attempts_down storage_attempts_blip by simp

section \<open>Snapshot, revert and merge\<close>

text \<open>
  Claim C2 (revert purity). For every facade state \<open>db\<close> and every sequence \<open>W\<close> of
  setter, suicide, log and receipt writes: taking \<open>id = Snapshot()\<close>, performing \<open>W\<close> and
  calling \<open>RevertToSnapshot(id)\<close> does not panic and gives back exactly the state
  \<open>db\<close>. Every getter, \<open>GetLogs\<close>, \<open>GetReceipt\<close> and \<open>GetOverlayDepth\<close> is a function of
  that state, so each returns what it returned before; the state includes the client
  \<open>ec\<close> with its list of upstream calls, so no upstream call was made on the way.
\<close>

theorem revert_purity:
  "RevertToSnapshot (foldl (apply_write K) (snd (Snapshot db)) W) (fst (Snapshot db)) = Inr db"
proof -
  let ?db1 = "snd (Snapshot db)"
  let ?db2 = "foldl (apply_write K) ?db1 W"
  have frame: "ec ?db2 = ec db" "refundGas ?db2 = refundGas db"
    "parent (state ?db2) = Some (state db)"
    using foldl_apply_write_frame [of K ?db1 W] by (simp_all add: Snapshot_def Derive_def)
  have "RevertToSnapshot_loop (state db) (fst (Snapshot db)) = Inr (state db)"
    by (rule RevertToSnapshot_loop_here) (simp add: Snapshot_def Derive_def)
  then show ?thesis
    using frame by (simp add: RevertToSnapshot_def)
qed

theorem revert_purity_witness:
  "fst (Snapshot (NewOverlayStateDB 100)) = 2
   \<and> RevertToSnapshot
        (foldl (apply_write pad32) (snd (Snapshot (NewOverlayStateDB 100)))
           [W_SetBalance addr_a 200, W_AddLog log1, W_AddReceipt tx_t receipt1])
        2 = Inr (NewOverlayStateDB 100)"
proof -
  have id: "fst (Snapshot (NewOverlayStateDB 100)) = 2"
    by (simp add: Snapshot_def NewOverlayStateDB_def NewOverlayState_def Derive_def)
  show ?thesis
    using revert_purity [of pad32 "NewOverlayStateDB 100"
        "[W_SetBalance addr_a 200, W_AddLog log1, W_AddReceipt tx_t receipt1]"]
    unfolding id by (simp add: id)
qed

text \<open>
  Claim C3 (merge), as the code has it. \<open>MergeTo\<close> copies the scratchpad of each merged
  layer into its parent and nothing else: for every facade state \<open>db\<close> whose active
  layer has depth \<open>id\<close> and every sequence \<open>W\<close> of scratchpad writes (\<open>SetBalance\<close>,
  \<open>SetNonce\<close>, \<open>SetCode\<close>, \<open>SetCodeHash\<close>, \<open>SetState\<close>, \<open>Suicide\<close>), \<open>Snapshot()\<close>, then \<open>W\<close>,
  then \<open>MergeTo(id)\<close> does not panic and ends in exactly the state that \<open>W\<close> applied
  directly to \<open>db\<close> gives; \<open>GetOverlayDepth\<close> is \<open>id\<close> again.
\<close>

theorem merge_scratchpad_writes:
  assumes "list_all scratchpad_write W"
  shows "MergeTo (foldl (apply_write K) (snd (Snapshot db)) W) (GetOverlayDepth db)
           = Inr (foldl (apply_write K) db W)
         \<and> GetOverlayDepth (foldl (apply_write K) db W) = GetOverlayDepth db"
proof -
  let ?A = "foldl (apply_write K) (snd (Snapshot db)) W"
  from merge_simulation [OF assms, of K db]
  obtain C where C: "state ?A = Derived C (state db)"
      "deriveCnt C = deriveCnt (this (state db)) + 1"
      "ec ?A = ec db" "refundGas ?A = refundGas db"
      "foldl (apply_write K) db W =
          db\<lparr>state := update_this (\<lambda>q. q\<lparr>scratchPad := scratchPad q ++ scratchPad C\<rparr>) (state db)\<rparr>"
    by blast
  let ?m = "update_this (\<lambda>q. q\<lparr>scratchPad := scratchPad q ++ scratchPad C\<rparr>) (state db)"
  have "MergeTo_loop (state ?A) (GetOverlayDepth db) = MergeTo_loop ?m (GetOverlayDepth db)"
    by (simp add: C GetOverlayDepth_def)
  also have "\<dots> = Inr ?m"
    by (rule MergeTo_loop_here) (simp add: GetOverlayDepth_def)
  finally have "MergeTo ?A (GetOverlayDepth db) = Inr (?A\<lparr>state := ?m\<rparr>)"
    by (simp add: MergeTo_def)
  moreover have "?A\<lparr>state := ?m\<rparr> = foldl (apply_write K) db W"
    using C by simp
  moreover have "GetOverlayDepth (foldl (apply_write K) db W) = GetOverlayDepth db"
    using foldl_apply_write_frame [of K db W] by (simp add: GetOverlayDepth_def)
  ultimately show ?thesis by simp
qed

theorem merge_scratchpad_writes_witness:
  "list_all scratchpad_write [W_SetState addr_a slot_k slot_v, W_Suicide addr_a, W_SetBalance addr_a 200]
   \<and> GetOverlayDepth (NewOverlayStateDB 100) = 1
   \<and> (\<exists>d. MergeTo (foldl (apply_write pad32) (snd (Snapshot (NewOverlayStateDB 100)))
                    [W_SetState addr_a slot_k slot_v, W_Suicide addr_a, W_SetBalance addr_a 200]) 1
              = Inr d
          \<and> GetBalance pad32 upstream0 d addr_a = Some (Inr 200, d)
          \<and> GetOverlayDepth d = 1)"
proof -
  let ?W = "[W_SetState addr_a slot_k slot_v, W_Suicide addr_a, W_SetBalance addr_a 200]"
  let ?d = "foldl (apply_write pad32) (NewOverlayStateDB 100) ?W"
  have w: "list_all scratchpad_write ?W"
    by simp
  have depth: "GetOverlayDepth (NewOverlayStateDB 100) = 1"
    by (simp add: GetOverlayDepth_def NewOverlayStateDB_def NewOverlayState_def Derive_def)
  have "scratchPad (this (state ?d)) (scratchpadKey pad32 GET_BALANCE addr_a zeroHash)
      = Some (big_Bytes 200)"
    by (simp add: SetBalance_def)
  then have "get pad32 upstream0 (state ?d) (ec ?d) addr_a GET_BALANCE zeroHash
      = Some (Inr (big_Bytes 200), state ?d, ec ?d)"
    by (rule get_hit_this)
  then have bal: "GetBalance pad32 upstream0 ?d addr_a = Some (Inr 200, ?d)"
    by (simp add: GetBalance_def state_get_def big_SetBytes_Bytes)
  from merge_scratchpad_writes [OF w, of pad32 "NewOverlayStateDB 100"] w depth bal
  show ?thesis
    by simp
qed

text \<open>
  The claim as written also covers log and receipt writes. A log added between
  \<open>Snapshot\<close> and \<open>MergeTo\<close> stays in the merged layer's \<open>txLogs\<close> and is lost: on a
  fresh facade the merge gives back the fresh facade, whose logs for the current
  transaction are empty, while the same \<open>AddLog\<close> applied directly is returned by
  \<open>GetLogs\<close>.
\<close>

theorem merge_drops_logs_counterexample:
  "MergeTo (AddLog (snd (Snapshot (NewOverlayStateDB 100))) log1)
       (GetOverlayDepth (NewOverlayStateDB 100)) = Inr (NewOverlayStateDB 100)
   \<and> GetLogs (NewOverlayStateDB 100) zeroHash = []
   \<and> GetLogs (AddLog (NewOverlayStateDB 100) log1) zeroHash = [log1]"
  by (simp add: MergeTo_def AddLog_def Snapshot_def NewOverlayStateDB_def NewOverlayState_def
      Derive_def GetOverlayDepth_def GetLogs_def)

section \<open>The suicide flag\<close>

text \<open>
  Claim C7 (suicide is layer-scoped), as the code has it. In any facade state \<open>db\<close>,
  \<open>Suicide(a)\<close> returns true and stores the one byte \<open>0x01\<close> under the suicide key of \<open>a\<close>
  in the active layer, and \<open>HasSuicided(a)\<close> is true right after; after a further
  \<open>Snapshot()\<close> the new child reports \<open>HasSuicided(a) = false\<close>. When \<open>db\<close> itself came
  from \<open>id = Snapshot()\<close> on a state \<open>db0\<close>, reverting to \<open>id\<close>, from the child or right
  after the suicide, gives back exactly \<open>db0\<close>: the flag written after the snapshot is
  gone, and \<open>HasSuicided(a)\<close> at the reverted-to layer is true exactly when that layer
  held \<open>0x01\<close> under the suicide key of \<open>a\<close> before the snapshot was taken.
\<close>

theorem suicide_layer_scoped:
  assumes "Suicide K db a = (ok, db1)"
    and "Snapshot db1 = (id2, db2)"
  shows "ok \<and> scratchPad (this (state db1)) (calcKey (SUICIDE_KEY K) a) = Some [CHR 0x01]
    \<and> HasSuicided K db1 a
    \<and> \<not> HasSuicided K db2 a
    \<and> (\<forall>db0 id. Snapshot db0 = (id, db)
          \<longrightarrow> RevertToSnapshot db2 id = Inr db0 \<and> RevertToSnapshot db1 id = Inr db0
              \<and> (HasSuicided K db0 a
                   \<longleftrightarrow> scratchPad (this (state db0)) (calcKey (SUICIDE_KEY K) a) = Some [CHR 0x01]))"
proof -
  from assms(1) have ok: ok and db1: "db1 = db\<lparr>state := scratchPad_store (calcKey (SUICIDE_KEY K) a) [CHR 0x01] (state db)\<rparr>"
    by (simp_all add: Suicide_def)
  from assms(2) have db2: "db2 = db1\<lparr>state := Derive (state db1)\<rparr>"
    by (simp add: Snapshot_def)
  have flag: "scratchPad (this (state db1)) (calcKey (SUICIDE_KEY K) a) = Some [CHR 0x01]"
    by (simp add: db1)
  have here: "HasSuicided K db1 a"
    by (simp add: HasSuicided_def flag)
  have child: "\<not> HasSuicided K db2 a"
    by (simp add: HasSuicided_def db2)
  have revert: "RevertToSnapshot db2 id = Inr db0 \<and> RevertToSnapshot db1 id = Inr db0"
    if "Snapshot db0 = (id, db)" for db0 id
  proof -
    from that have id: "id = deriveCnt (this (state db0)) + 1"
      and db: "db = db0\<lparr>state := Derive (state db0)\<rparr>"
      by (auto simp add: Snapshot_def)
    have p1: "parent (state db1) = Some (state db0)"
      by (simp add: db1 db scratchPad_store_def)
    have d1: "deriveCnt (this (state db1)) = deriveCnt (this (state db0)) + 1"
      by (simp add: db1 db scratchPad_store_def)
    have here0: "RevertToSnapshot_loop (state db0) id = Inr (state db0)"
      by (rule RevertToSnapshot_loop_here) (simp add: id)
    have "RevertToSnapshot_loop (state db1) id = RevertToSnapshot_loop (state db0) id"
      using p1 d1 id by (cases "state db1") simp_all
    with here0 have up: "RevertToSnapshot_loop (state db1) id = Inr (state db0)"
      by simp
    have r2: "RevertToSnapshot db2 id = Inr db0"
      using up by (simp add: RevertToSnapshot_def db2 db1 db)
    have r1: "RevertToSnapshot db1 id = Inr db0"
      using here0 p1 by (simp add: RevertToSnapshot_def db1 db)
    from r2 r1 show ?thesis ..
  qed
  have before: "HasSuicided K db0 a
      \<longleftrightarrow> scratchPad (this (state db0)) (calcKey (SUICIDE_KEY K) a) = Some [CHR 0x01]" for db0
    by (simp add: HasSuicided_def split: option.splits)
  from ok flag here child revert before show ?thesis
    by blast
qed

theorem suicide_layer_scoped_witness:
  "fst (Suicide pad32 (snd (Snapshot (NewOverlayStateDB 100))) addr_a)
   \<and> HasSuicided pad32 (snd (Suicide pad32 (snd (Snapshot (NewOverlayStateDB 100))) addr_a)) addr_a
   \<and> \<not> HasSuicided pad32 (snd (Snapshot (snd (Suicide pad32 (snd (Snapshot (NewOverlayStateDB 100))) addr_a)))) addr_a
   \<and> RevertToSnapshot (snd (Snapshot (snd (Suicide pad32 (snd (Snapshot (NewOverlayStateDB 100))) addr_a))))
         (fst (Snapshot (NewOverlayStateDB 100))) = Inr (NewOverlayStateDB 100)
   \<and> RevertToSnapshot (snd (Suicide pad32 (snd (Snapshot (NewOverlayStateDB 100))) addr_a))
         (fst (Snapshot (NewOverlayStateDB 100))) = Inr (NewOverlayStateDB 100)
   \<and> scratchPad (this (state (NewOverlayStateDB 100))) (calcKey (SUICIDE_KEY pad32) addr_a) = None
   \<and> \<not> HasSuicided pad32 (NewOverlayStateDB 100) addr_a"
proof -
  let ?D = "NewOverlayStateDB 100"
  let ?db = "snd (Snapshot ?D)"
  let ?db1 = "snd (Suicide pad32 ?db addr_a)"
  let ?db2 = "snd (Snapshot ?db1)"
  have start: "scratchPad (this (state ?D)) (calcKey (SUICIDE_KEY pad32) addr_a) = None"
    by (simp add: NewOverlayStateDB_def Derive_def)
  note law = suicide_layer_scoped [of pad32 ?db "addr_a" "fst (Suicide pad32 ?db addr_a)" ?db1
      "fst (Snapshot ?db1)" ?db2, OF surjective_pairing surjective_pairing]
  from law have scenario: "fst (Suicide pad32 ?db addr_a) \<and> HasSuicided pad32 ?db1 addr_a
      \<and> \<not> HasSuicided pad32 ?db2 addr_a"
    by blast
  from law have "Snapshot ?D = (fst (Snapshot ?D), ?db)
      \<longrightarrow> RevertToSnapshot ?db2 (fst (Snapshot ?D)) = Inr ?D
          \<and> RevertToSnapshot ?db1 (fst (Snapshot ?D)) = Inr ?D
          \<and> (HasSuicided pad32 ?D addr_a
               \<longleftrightarrow> scratchPad (this (state ?D)) (calcKey (SUICIDE_KEY pad32) addr_a) = Some [CHR 0x01])"
    by blast
  then have reverted: "RevertToSnapshot ?db2 (fst (Snapshot ?D)) = Inr ?D
      \<and> RevertToSnapshot ?db1 (fst (Snapshot ?D)) = Inr ?D
      \<and> \<not> HasSuicided pad32 ?D addr_a"
    using start by simp
  from scenario reverted start show ?thesis
    by simp
qed

text \<open>
  The claim as written has \<open>HasSuicided(a)\<close> false at the reverted-to layer for every
  address. When \<open>a\<close> had already suicided in the layer the snapshot was taken from,
  \<open>Suicide(a)\<close>, \<open>id = Snapshot()\<close>, \<open>Suicide(a)\<close>, \<open>Snapshot()\<close>, \<open>RevertToSnapshot(id)\<close>
  ends in that layer, where \<open>HasSuicided(a)\<close> is true.
\<close>

theorem suicide_revert_counterexample:
  "HasSuicided pad32 (snd (Suicide pad32 (NewOverlayStateDB 100) addr_a)) addr_a
   \<and> fst (Suicide pad32 (snd (Snapshot (snd (Suicide pad32 (NewOverlayStateDB 100) addr_a)))) addr_a)
   \<and> HasSuicided pad32
        (snd (Suicide pad32 (snd (Snapshot (snd (Suicide pad32 (NewOverlayStateDB 100) addr_a)))) addr_a))
        addr_a
   \<and> \<not> HasSuicided pad32
        (snd (Snapshot (snd (Suicide pad32
           (snd (Snapshot (snd (Suicide pad32 (NewOverlayStateDB 100) addr_a)))) addr_a))))
        addr_a
   \<and> (\<exists>db'. RevertToSnapshot
          (snd (Snapshot (snd (Suicide pad32
             (snd (Snapshot (snd (Suicide pad32 (NewOverlayStateDB 100) addr_a)))) addr_a))))
          (fst (Snapshot (snd (Suicide pad32 (NewOverlayStateDB 100) addr_a)))) = Inr db'
        \<and> db' = snd (Suicide pad32 (NewOverlayStateDB 100) addr_a)
        \<and> HasSuicided pad32 db' addr_a)"
  by (simp add: HasSuicided_def Suicide_def Snapshot_def RevertToSnapshot_def
      NewOverlayStateDB_def NewOverlayState_def Derive_def scratchPad_store_def)

section \<open>Logs and receipts\<close>

text \<open>
  Claim C8 (log and receipt walks). \<open>GetLogs(txHash)\<close> is the concatenation of
  the logs recorded for \<open>txHash\<close> in the layers of the chain, in root-to-leaf order, the
  root included. \<open>GetReceipt(txHash)\<close> returns the receipt of the first layer, from the
  active layer towards the root and without the root, that holds one for \<open>txHash\<close>,
  with its \<open>Logs\<close> set to \<open>GetLogs(txHash)\<close>; it returns nil when none of these layers
  holds one, whatever the root holds.
\<close>

theorem logs_and_receipts_walk:
  "GetLogs db txHash = concat (map (\<lambda>s. txLogs s txHash) (rev (layers (state db))))
   \<and> fst (GetReceipt db txHash) =
       (case find (\<lambda>s. receipts s txHash \<noteq> None) (butlast (layers (state db))) of
          None \<Rightarrow> None
        | Some s \<Rightarrow> map_option (\<lambda>r. r\<lparr>Logs := GetLogs db txHash\<rparr>) (receipts s txHash))"
proof
  show "GetLogs db txHash = concat (map (\<lambda>s. txLogs s txHash) (rev (layers (state db))))"
    by (simp add: GetLogs_def GetLogs_loop_concat)
next
  show "fst (GetReceipt db txHash) =
       (case find (\<lambda>s. receipts s txHash \<noteq> None) (butlast (layers (state db))) of
          None \<Rightarrow> None
        | Some s \<Rightarrow> map_option (\<lambda>r. r\<lparr>Logs := GetLogs db txHash\<rparr>) (receipts s txHash))"
    unfolding GetReceipt_def fst_conv by (rule GetReceipt_loop_find)
qed

theorem logs_and_receipts_walk_witness:
  "GetLogs (AddLog (StartLogCollection (snd (Snapshot
       (AddReceipt (AddLog (StartLogCollection root_db tx_t block_b) log1) tx_t receipt1))) tx_t block_b) log2) tx_t
     = [log1, log2]
   \<and> fst (GetReceipt (AddLog (StartLogCollection (snd (Snapshot
       (AddReceipt (AddLog (StartLogCollection root_db tx_t block_b) log1) tx_t receipt1))) tx_t block_b) log2) tx_t)
     = None
   \<and> fst (GetReceipt (AddReceipt (AddLog (StartLogCollection (snd (Snapshot
       (AddReceipt (AddLog (StartLogCollection root_db tx_t block_b) log1) tx_t receipt1))) tx_t block_b) log2) tx_t receipt1) tx_t)
     = Some (receipt1\<lparr>Logs := [log1, log2]\<rparr>)"
proof -
  let ?db1 = "AddReceipt (AddLog (StartLogCollection root_db tx_t block_b) log1) tx_t receipt1"
  let ?db2 = "AddLog (StartLogCollection (snd (Snapshot ?db1)) tx_t block_b) log2"
  let ?db3 = "AddReceipt ?db2 tx_t receipt1"
  have l2: "layers (state ?db2) = [this (state ?db2), this (state ?db1)]"
    by (simp add: AddLog_def StartLogCollection_def Snapshot_def Derive_def AddReceipt_def
        root_db_def NewOverlayState_def)
  have l3: "layers (state ?db3) = [this (state ?db3), this (state ?db1)]"
    by (simp add: AddLog_def StartLogCollection_def Snapshot_def Derive_def AddReceipt_def
        root_db_def NewOverlayState_def)
  have logs2: "GetLogs ?db2 tx_t = [log1, log2]"
    using logs_and_receipts_walk [of ?db2 "tx_t"] unfolding l2
    by (simp add: AddLog_def StartLogCollection_def Snapshot_def Derive_def AddReceipt_def
        root_db_def NewOverlayState_def)
  have r2: "fst (GetReceipt ?db2 tx_t) = None"
    using logs_and_receipts_walk [of ?db2 "tx_t"] unfolding l2
    by (simp add: AddLog_def StartLogCollection_def Snapshot_def Derive_def AddReceipt_def
        root_db_def NewOverlayState_def)
  have logs3: "GetLogs ?db3 tx_t = [log1, log2]"
    using logs_and_receipts_walk [of ?db3 "tx_t"] unfolding l3
    by (simp add: AddLog_def StartLogCollection_def Snapshot_def Derive_def AddReceipt_def
        root_db_def NewOverlayState_def)
  have r3: "fst (GetReceipt ?db3 tx_t) = Some (receipt1\<lparr>Logs := [log1, log2]\<rparr>)"
    using logs_and_receipts_walk [of ?db3 "tx_t"] unfolding l3 logs3
    by (simp add: AddLog_def StartLogCollection_def Snapshot_def Derive_def AddReceipt_def
        root_db_def NewOverlayState_def)
  from logs2 r2 r3 show ?thesis by simp
qed

end
